theory Spec2Isabelle
  imports Main "HOL-Library.Signed_Division" "HOL-Library.Monad_Syntax"
begin

section \<open>Conventions\<close>

text \<open>
  The development embeds two C files of the lighttable: \<^verbatim>\<open>src/common/act_on.c\<close> (the images a
  global action applies to, with its cache) and \<^verbatim>\<open>src/dtgtk/thumbtable.c\<close> (the table of
  thumbnails: sizes, full reload, incremental move, group borders).

  \<^item> A C \<^verbatim>\<open>int\<close> is an \<^typ>\<open>int\<close>; \<^verbatim>\<open>/\<close> and \<^verbatim>\<open>%\<close> are the truncating \<open>sdiv\<close> and
    \<open>smod\<close>. No computation of the modelled functions leaves the 32-bit range on the inputs
    used below, except the bounding box of an empty list in \<^verbatim>\<open>_pos_compute_area\<close>, whose
    result no theorem reads.
  \<^item> A \<^verbatim>\<open>GList\<close> or \<^verbatim>\<open>GSList\<close> is a list; \<^verbatim>\<open>NULL\<close> is the empty list.
  \<^item> A function that can divide by zero, dereference \<^verbatim>\<open>NULL\<close> or recurse without a bound
    returns an \<^typ>\<open>'a option\<close>; \<^term>\<open>None\<close> means that the C function gives no result.
  \<^item> A leading underscore of a C name is dropped (\<^verbatim>\<open>_move\<close> is \<open>move\<close>); record fields
    carry a prefix where the C name is a common variable name.
  \<^item> Calls into GTK, the configuration store, the log and the CSS classes do not touch the
    modelled fields and are left out.
\<close>

section \<open>The images to act on (act\_on.c)\<close>

subsection \<open>Global state read by act\_on.c\<close>

text \<open>\<^verbatim>\<open>darktable.gui\<close>: the grouping preference, the group expanded in the user interface, and
  \<^verbatim>\<open>dt_ui_thumbtable(darktable.gui->ui)->mouse_inside\<close>.\<close>

record dt_gui_t =
  grouping :: bool
  expanded_group_id :: int
  ui_mouse_inside :: bool

text \<open>The part of the global \<^verbatim>\<open>darktable\<close> that act\_on.c reads and never writes.
  \<^item> \<open>gui\<close>: \<^verbatim>\<open>darktable.gui\<close>, \<^term>\<open>None\<close> for \<^verbatim>\<open>NULL\<close>;
  \<^item> \<open>mouse_over_id\<close>: \<^verbatim>\<open>dt_control_get_mouse_over_id()\<close>;
  \<^item> \<open>active_images\<close>: \<^verbatim>\<open>darktable.view_manager->active_images\<close>;
  \<^item> \<open>selection_list only_visible ordered\<close>: \<^verbatim>\<open>dt_selection_get_list\<close>;
  \<^item> \<open>image_cache imgid\<close>: the \<^verbatim>\<open>group_id\<close> of the image that \<^verbatim>\<open>dt_image_cache_get\<close>
    returns, \<^term>\<open>None\<close> when it returns \<^verbatim>\<open>NULL\<close>;
  \<^item> \<open>selection_collection\<close>: \<^verbatim>\<open>dt_selection_get_collection(darktable.selection)\<close>, given by
    the ids that its query without grouping selects; \<^term>\<open>None\<close> for \<^verbatim>\<open>NULL\<close>;
  \<^item> \<open>main_images\<close>: the rows \<open>(id, group_id)\<close> of the table \<^verbatim>\<open>main.images\<close>.\<close>

record darktable_t =
  gui :: "dt_gui_t option"
  mouse_over_id :: int
  active_images :: "int list"
  selection_list :: "bool \<Rightarrow> bool \<Rightarrow> int list"
  image_cache :: "int \<Rightarrow> int option"
  selection_collection :: "int list option"
  main_images :: "(int \<times> int) list"

text \<open>\<^verbatim>\<open>dt_act_on_cache_t\<close>.\<close>

record dt_act_on_cache_t =
  cache_ok :: bool
  cache_ordered :: bool
  cache_images :: "int list"
  cache_images_nb :: int
  cache_image_over :: int
  cache_active_imgs :: "int list"
  cache_inside_table :: bool

text \<open>The two caches of \<^verbatim>\<open>darktable.view_manager\<close>, the only state act\_on.c writes.\<close>

record dt_view_manager_t =
  act_on_cache_visible :: dt_act_on_cache_t
  act_on_cache_all :: dt_act_on_cache_t

subsection \<open>Inserting an image and its group\<close>

text \<open>\<^verbatim>\<open>if(!g_list_find_custom(*list, imgid, _find_custom)) *list = g_list_append(*list, imgid)\<close>.\<close>

definition append_if_absent :: "int list \<Rightarrow> int \<Rightarrow> int list" where
  "append_if_absent l imgid = (if imgid \<in> set l then l else l @ [imgid])"

text \<open>The rows of
  \<^verbatim>\<open>SELECT id FROM main.images WHERE group_id = %d AND id IN (%s)\<close>,
  the second argument being the ids of the collection's query without grouping.\<close>

definition group_query :: "darktable_t \<Rightarrow> int \<Rightarrow> int list \<Rightarrow> int list" where
  "group_query d img_group_id ids =
     map fst (filter (\<lambda>(i, g). g = img_group_id \<and> i \<in> set ids) (main_images d))"

definition insert_in_list :: "darktable_t \<Rightarrow> int list \<Rightarrow> int \<Rightarrow> bool \<Rightarrow> int list" where
  "insert_in_list d l imgid only_visible =
     (if only_visible then append_if_absent l imgid
      else case image_cache d imgid of
        None \<Rightarrow> l
      | Some img_group_id \<Rightarrow>
          (case gui d of
             None \<Rightarrow> append_if_absent l imgid
           | Some g \<Rightarrow>
               if \<not> grouping g \<or> expanded_group_id g = img_group_id
               then append_if_absent l imgid
               else (case selection_collection d of
                       None \<Rightarrow> append_if_absent l imgid
                     | Some ids \<Rightarrow> foldl append_if_absent l (group_query d img_group_id ids))))"

subsection \<open>The cache\<close>

text \<open>The loop of \<^verbatim>\<open>_test_cache\<close> over the two lists of active images: it stops with
  \<^verbatim>\<open>FALSE\<close> at the first pair that differs and ends when either list ends.\<close>

fun active_imgs_same :: "int list \<Rightarrow> int list \<Rightarrow> bool" where
  "active_imgs_same (a # l1) (b # l2) = (if a \<noteq> b then False else active_imgs_same l1 l2)"
| "active_imgs_same _ _ = True"

text \<open>\<^verbatim>\<open>_test_cache\<close>. The conjunction is evaluated from the left, so \<^verbatim>\<open>darktable.gui\<close> is
  dereferenced only when the cache is marked valid and holds the current hovered image.\<close>

definition test_cache :: "darktable_t \<Rightarrow> dt_act_on_cache_t \<Rightarrow> bool option" where
  "test_cache d cache =
     (if cache_ok cache \<and> cache_image_over cache = mouse_over_id d
      then (case gui d of
              None \<Rightarrow> None
            | Some g \<Rightarrow>
                Some (cache_inside_table cache = ui_mouse_inside g
                      \<and> length (cache_active_imgs cache) = length (active_images d)
                      \<and> (if \<not> ui_mouse_inside g \<and> cache_active_imgs cache \<noteq> []
                          then active_imgs_same (cache_active_imgs cache) (active_images d)
                          else True)))
      else Some False)"

definition get_cache :: "dt_view_manager_t \<Rightarrow> bool \<Rightarrow> dt_act_on_cache_t" where
  "get_cache vm only_visible = (if only_visible then act_on_cache_visible vm else act_on_cache_all vm)"

definition set_cache :: "dt_view_manager_t \<Rightarrow> bool \<Rightarrow> dt_act_on_cache_t \<Rightarrow> dt_view_manager_t" where
  "set_cache vm only_visible c =
     (if only_visible then vm\<lparr>act_on_cache_visible := c\<rparr> else vm\<lparr>act_on_cache_all := c\<rparr>)"

text \<open>The loop of \<^verbatim>\<open>_cache_update\<close> over the active images.\<close>

fun insert_active_images :: "darktable_t \<Rightarrow> bool \<Rightarrow> int list \<Rightarrow> int list \<Rightarrow> int list" where
  "insert_active_images d only_visible [] l = l"
| "insert_active_images d only_visible (i # ll) l =
     (let l1 = insert_in_list d l i only_visible;
          l2 = (if \<not> only_visible then insert_in_list d l1 i True else l1)
      in insert_active_images d only_visible ll l2)"

text \<open>The list that \<^verbatim>\<open>_cache_update\<close> builds when it does not answer from the cache: the
  selection, then the active images.\<close>

definition images_to_act_on :: "darktable_t \<Rightarrow> bool \<Rightarrow> bool \<Rightarrow> int list" where
  "images_to_act_on d only_visible ordered =
     insert_active_images d only_visible (active_images d) (selection_list d only_visible ordered)"

text \<open>\<^verbatim>\<open>_cache_update\<close>: \<^verbatim>\<open>TRUE\<close> when the cache has been rebuilt. Registering the new list reads
  \<^verbatim>\<open>darktable.gui\<close> without a test.\<close>

definition cache_update ::
  "darktable_t \<Rightarrow> dt_view_manager_t \<Rightarrow> bool \<Rightarrow> bool \<Rightarrow> bool \<Rightarrow> (bool \<times> dt_view_manager_t) option" where
  "cache_update d vm only_visible force ordered =
     (let cache = get_cache vm only_visible in
      case (if \<not> force \<and> cache_ordered cache = ordered then test_cache d cache else Some False) of
        None \<Rightarrow> None
      | Some True \<Rightarrow> Some (False, vm)
      | Some False \<Rightarrow>
          (let l = images_to_act_on d only_visible ordered in
           case gui d of
             None \<Rightarrow> None
           | Some g \<Rightarrow>
               Some (True, set_cache vm only_visible
                 (cache\<lparr>cache_ordered := ordered,
                        cache_image_over := mouse_over_id d,
                        cache_images := l,
                        cache_images_nb := int (length l),
                        cache_active_imgs := active_images d,
                        cache_inside_table := ui_mouse_inside g,
                        cache_ok := True\<rparr>))))"

text \<open>\<^verbatim>\<open>dt_act_on_get_images\<close>: a copy of the cached list, the empty list when the cache is not
  valid.\<close>

definition dt_act_on_get_images ::
  "darktable_t \<Rightarrow> dt_view_manager_t \<Rightarrow> bool \<Rightarrow> bool \<Rightarrow> bool \<Rightarrow> (int list \<times> dt_view_manager_t) option" where
  "dt_act_on_get_images d vm only_visible force ordered =
     (case cache_update d vm only_visible force ordered of
        None \<Rightarrow> None
      | Some (_, vm1) \<Rightarrow>
          Some (if only_visible \<and> cache_ok (act_on_cache_visible vm1)
                  then cache_images (act_on_cache_visible vm1)
                else if \<not> only_visible \<and> cache_ok (act_on_cache_all vm1)
                  then cache_images (act_on_cache_all vm1)
                else [], vm1))"

text \<open>\<^verbatim>\<open>dt_act_on_reset_cache\<close>.\<close>

definition dt_act_on_reset_cache :: "dt_view_manager_t \<Rightarrow> bool \<Rightarrow> dt_view_manager_t" where
  "dt_act_on_reset_cache vm only_visible =
     (if only_visible
      then vm\<lparr>act_on_cache_visible := (act_on_cache_visible vm)\<lparr>cache_ok := False\<rparr>\<rparr>
      else vm\<lparr>act_on_cache_all := (act_on_cache_all vm)\<lparr>cache_ok := False\<rparr>\<rparr>)"

section \<open>The table of thumbnails (thumbtable.c)\<close>

subsection \<open>Data\<close>

text \<open>\<^verbatim>\<open>dt_thumbtable_mode_t\<close>. The header \<^verbatim>\<open>thumbtable.h\<close> is not among the sources; the
  code names the two modes below, and \<open>DT_THUMBTABLE_MODE_NONE\<close> stands for any other value
  (the zero of a freshly allocated table).\<close>

datatype dt_thumbtable_mode_t =
  DT_THUMBTABLE_MODE_NONE | DT_THUMBTABLE_MODE_FILEMANAGER | DT_THUMBTABLE_MODE_FILMSTRIP

text \<open>\<^verbatim>\<open>dt_thumbnail_border_t\<close> (thumbnail.h). The field \<^verbatim>\<open>group_borders\<close> is a bit set of the
  four non-zero flags, modelled as a set.\<close>

datatype dt_thumbnail_border_t =
  DT_THUMBNAIL_BORDER_NONE | DT_THUMBNAIL_BORDER_LEFT | DT_THUMBNAIL_BORDER_TOP
  | DT_THUMBNAIL_BORDER_RIGHT | DT_THUMBNAIL_BORDER_BOTTOM

text \<open>\<^verbatim>\<open>dt_thumbnail_t\<close> (thumbnail.h), the fields that thumbtable.c reads or writes.
  \<open>th_ref\<close> is the address of the structure: the table holds pointers, and two entries are the
  same object exactly when they have the same address.\<close>

record dt_thumbnail_t =
  th_ref :: nat
  th_imgid :: int
  th_rowid :: int
  th_width :: int
  th_height :: int
  th_x :: int
  th_y :: int
  th_mouse_over :: bool
  th_selected :: bool
  th_is_grouped :: bool
  th_groupid :: int
  th_group_borders :: "dt_thumbnail_border_t set"

text \<open>\<^verbatim>\<open>dt_thumbtable_t\<close>, the fields that the modelled functions read or write.
  \<open>area_x\<close>, \<open>area_y\<close>, \<open>area_width\<close> and \<open>area_height\<close> are the rectangle \<^verbatim>\<open>thumbs_area\<close>;
  \<open>thumb_list\<close> is the field \<^verbatim>\<open>list\<close>; \<open>heap_next\<close> is the address that the next call of
  \<^verbatim>\<open>dt_thumbnail_new\<close> returns.\<close>

record dt_thumbtable_t =
  mode :: dt_thumbtable_mode_t
  offset :: int
  offset_imgid :: int
  thumb_size :: int
  thumbs_per_row :: int
  rows :: int
  center_offset :: int
  view_width :: int
  view_height :: int
  area_x :: int
  area_y :: int
  area_width :: int
  area_height :: int
  thumb_list :: "dt_thumbnail_t list"
  realign_top_try :: int
  dragging :: bool
  mouse_inside :: bool
  scrollbars :: bool
  heap_next :: nat

text \<open>What thumbtable.c reads from outside the table and never writes.
  \<^item> \<open>collected_images\<close>: the image ids of \<^verbatim>\<open>memory.collected_images\<close> in the order of their
    \<^verbatim>\<open>rowid\<close>, which counts from 1 without a gap;
  \<^item> \<open>allocation\<close>: width and height that \<^verbatim>\<open>gtk_widget_get_allocation\<close> returns;
  \<^item> \<open>lighttable_zoom\<close>: \<^verbatim>\<open>dt_view_lighttable_get_zoom\<close>, the thumbnails per row;
  \<^item> \<open>selection_first_id\<close>: \<^verbatim>\<open>dt_selection_get_first_id\<close>, \<open>-1\<close> without a selection;
  \<^item> \<open>selection\<close>: \<^verbatim>\<open>dt_selection_get_list(darktable.selection)\<close>;
  \<^item> \<open>image_infos imgid\<close>: the flag \<^verbatim>\<open>is_grouped\<close> and the \<^verbatim>\<open>groupid\<close> that a thumbnail
    loads for the image;
  \<^item> \<open>hover_id\<close>: \<^verbatim>\<open>dt_control_get_mouse_over_id()\<close>;
  \<^item> \<open>view_is_darkroom\<close>: whether the current view is \<^verbatim>\<open>DT_VIEW_DARKROOM\<close>.\<close>

record lighttable_t =
  collected_images :: "int list"
  allocation :: "int \<times> int"
  lighttable_zoom :: int
  selection_first_id :: int
  selection :: "int list"
  image_infos :: "int \<Rightarrow> bool \<times> int"
  hover_id :: int
  view_is_darkroom :: bool

subsection \<open>Integers and lists of the C library\<close>

definition INT_MAX :: int where "INT_MAX = 2147483647"
definition INT_MIN :: int where "INT_MIN = - 2147483648"

text \<open>The value of an \<^verbatim>\<open>int\<close> converted to \<^verbatim>\<open>guint\<close>, as happens where the code compares an
  \<^verbatim>\<open>int\<close> with a \<^verbatim>\<open>g_list_length\<close>.\<close>

definition to_guint :: "int \<Rightarrow> int" where
  "to_guint v = v mod 4294967296"

text \<open>\<^verbatim>\<open>g_list_nth_data\<close>: \<^verbatim>\<open>NULL\<close> (here \<^term>\<open>None\<close>) off the end of the list.\<close>

definition g_list_nth_data :: "'a list \<Rightarrow> int \<Rightarrow> 'a option" where
  "g_list_nth_data l n = (if 0 \<le> n \<and> n < int (length l) then Some (l ! nat n) else None)"

subsection \<open>Queries on the collection\<close>

fun rows_from :: "int \<Rightarrow> int list \<Rightarrow> (int \<times> int) list" where
  "rows_from r [] = []"
| "rows_from r (i # l) = (r, i) # rows_from (r + 1) l"

text \<open>The rows \<open>(rowid, imgid)\<close> of \<^verbatim>\<open>memory.collected_images\<close>, by \<^verbatim>\<open>rowid\<close>.\<close>

definition collected_rows :: "lighttable_t \<Rightarrow> (int \<times> int) list" where
  "collected_rows e = rows_from 1 (collected_images e)"

text \<open>\<^verbatim>\<open>LIMIT n\<close>: SQLite puts no bound on the rows when \<open>n\<close> is negative.\<close>

definition sql_limit :: "int \<Rightarrow> 'a list \<Rightarrow> 'a list" where
  "sql_limit n l = (if n < 0 then l else take (nat n) l)"

text \<open>\<^verbatim>\<open>SELECT rowid, imgid FROM memory.collected_images WHERE rowid>=%d LIMIT %d\<close>\<close>

definition select_from :: "lighttable_t \<Rightarrow> int \<Rightarrow> int \<Rightarrow> (int \<times> int) list" where
  "select_from e r n = sql_limit n (filter (\<lambda>(rowid, imgid). rowid \<ge> r) (collected_rows e))"

text \<open>\<^verbatim>\<open>... WHERE rowid<%d ORDER BY rowid DESC LIMIT %d\<close>\<close>

definition select_before :: "lighttable_t \<Rightarrow> int \<Rightarrow> int \<Rightarrow> (int \<times> int) list" where
  "select_before e r n = sql_limit n (rev (filter (\<lambda>(rowid, imgid). rowid < r) (collected_rows e)))"

text \<open>\<^verbatim>\<open>... WHERE rowid>%d ORDER BY rowid LIMIT %d\<close>\<close>

definition select_after :: "lighttable_t \<Rightarrow> int \<Rightarrow> int \<Rightarrow> (int \<times> int) list" where
  "select_after e r n = sql_limit n (filter (\<lambda>(rowid, imgid). rowid > r) (collected_rows e))"

text \<open>\<^verbatim>\<open>SELECT COUNT(*) FROM memory.collected_images\<close>\<close>

definition count_collected :: "lighttable_t \<Rightarrow> int" where
  "count_collected e = int (length (collected_images e))"

text \<open>\<^verbatim>\<open>_thumb_get_imgid\<close> and \<^verbatim>\<open>_thumb_get_rowid\<close>: \<open>-1\<close> when the query has no row.\<close>

definition thumb_get_imgid :: "lighttable_t \<Rightarrow> int \<Rightarrow> int" where
  "thumb_get_imgid e r =
     (case filter (\<lambda>(rowid, imgid). rowid = r) (collected_rows e) of
        [] \<Rightarrow> - 1 | (rowid, imgid) # _ \<Rightarrow> imgid)"

definition thumb_get_rowid :: "lighttable_t \<Rightarrow> int \<Rightarrow> int" where
  "thumb_get_rowid e i =
     (case filter (\<lambda>(rowid, imgid). imgid = i) (collected_rows e) of
        [] \<Rightarrow> - 1 | (rowid, imgid) # _ \<Rightarrow> rowid)"

subsection \<open>Thumbnails (thumbnail.c)\<close>

text \<open>Modelled from the spec: \<^verbatim>\<open>dt_thumbnail_new\<close> and the other functions of this subsection
  live in \<^verbatim>\<open>thumbnail.c\<close>, which is not among the sources; only their calls in thumbtable.c
  and the declarations of thumbnail.h are. A new entry is a fresh object for the image and
  row with the given size; it is not hovered, not selected and has no group border.\<close>

definition dt_thumbnail_new ::
  "lighttable_t \<Rightarrow> nat \<Rightarrow> int \<Rightarrow> int \<Rightarrow> int \<Rightarrow> int \<Rightarrow> dt_thumbnail_t" where
  "dt_thumbnail_new e ref w h imgid rowid =
     \<lparr>th_ref = ref, th_imgid = imgid, th_rowid = rowid, th_width = w, th_height = h,
      th_x = 0, th_y = 0, th_mouse_over = False, th_selected = False,
      th_is_grouped = fst (image_infos e imgid), th_groupid = snd (image_infos e imgid),
      th_group_borders = {}\<rparr>"

text \<open>Modelled from the spec: \<^verbatim>\<open>dt_thumbnail_resize\<close> gives the entry its new size in place.\<close>

definition dt_thumbnail_resize :: "dt_thumbnail_t \<Rightarrow> int \<Rightarrow> int \<Rightarrow> dt_thumbnail_t" where
  "dt_thumbnail_resize thumb w h = thumb\<lparr>th_width := w, th_height := h\<rparr>"

text \<open>Modelled from the spec: \<^verbatim>\<open>dt_thumbnail_set_group_border\<close> clears the bit set for
  \<^verbatim>\<open>DT_THUMBNAIL_BORDER_NONE\<close> and adds the flag otherwise.\<close>

definition dt_thumbnail_set_group_border ::
  "dt_thumbnail_t \<Rightarrow> dt_thumbnail_border_t \<Rightarrow> dt_thumbnail_t" where
  "dt_thumbnail_set_group_border thumb border =
     (if border = DT_THUMBNAIL_BORDER_NONE then thumb\<lparr>th_group_borders := {}\<rparr>
      else thumb\<lparr>th_group_borders := insert border (th_group_borders thumb)\<rparr>)"

text \<open>Modelled from the spec: \<^verbatim>\<open>dt_thumbnail_set_mouseover\<close>,
  \<^verbatim>\<open>dt_thumbnail_update_selection\<close> (the entry is selected when its image is in the selection)
  and \<^verbatim>\<open>dt_thumbnail_update_infos\<close> (the group of the image is read again).\<close>

definition dt_thumbnail_set_mouseover :: "dt_thumbnail_t \<Rightarrow> bool \<Rightarrow> dt_thumbnail_t" where
  "dt_thumbnail_set_mouseover thumb over = thumb\<lparr>th_mouse_over := over\<rparr>"

definition dt_thumbnail_update_selection :: "lighttable_t \<Rightarrow> dt_thumbnail_t \<Rightarrow> dt_thumbnail_t" where
  "dt_thumbnail_update_selection e thumb = thumb\<lparr>th_selected := (th_imgid thumb \<in> set (selection e))\<rparr>"

definition dt_thumbnail_update_infos :: "lighttable_t \<Rightarrow> dt_thumbnail_t \<Rightarrow> dt_thumbnail_t" where
  "dt_thumbnail_update_infos e thumb =
     thumb\<lparr>th_is_grouped := fst (image_infos e (th_imgid thumb)),
           th_groupid := snd (image_infos e (th_imgid thumb))\<rparr>"

text \<open>A call of \<^verbatim>\<open>dt_thumbnail_new\<close> in thumbtable.c: the new object takes the next address.\<close>

definition new_thumb ::
  "lighttable_t \<Rightarrow> dt_thumbtable_t \<Rightarrow> int \<Rightarrow> int \<Rightarrow> dt_thumbnail_t \<times> dt_thumbtable_t" where
  "new_thumb e t imgid rowid =
     (dt_thumbnail_new e (heap_next t) (thumb_size t) (thumb_size t) imgid rowid,
      t\<lparr>heap_next := Suc (heap_next t)\<rparr>)"

subsection \<open>Positions and sizes\<close>

text \<open>\<^verbatim>\<open>_list_compare_by_imgid\<close>: 0 when the entry shows the image; a negative id never matches.\<close>

definition list_compare_by_imgid :: "dt_thumbnail_t \<Rightarrow> int \<Rightarrow> int" where
  "list_compare_by_imgid th imgid =
     (if th_imgid th < 0 \<or> imgid < 0 then 1 else if th_imgid th \<noteq> imgid then 1 else 0)"

text \<open>\<^verbatim>\<open>_thumbtable_get_thumb\<close>\<close>

definition thumbtable_get_thumb :: "dt_thumbtable_t \<Rightarrow> int \<Rightarrow> dt_thumbnail_t option" where
  "thumbtable_get_thumb t imgid =
     (if imgid \<le> 0 then None else find (\<lambda>th. th_imgid th = imgid) (thumb_list t))"

text \<open>\<^verbatim>\<open>_pos_compute_area\<close>\<close>

definition pos_compute_area :: "dt_thumbtable_t \<Rightarrow> dt_thumbtable_t" where
  "pos_compute_area t =
     (let x1 = foldl (\<lambda>a th. min a (th_x th)) INT_MAX (thumb_list t);
          y1 = foldl (\<lambda>a th. min a (th_y th)) INT_MAX (thumb_list t);
          x2 = foldl (\<lambda>a th. max a (th_x th)) INT_MIN (thumb_list t);
          y2 = foldl (\<lambda>a th. max a (th_y th)) INT_MIN (thumb_list t)
      in t\<lparr>area_x := x1, area_y := y1,
            area_width := x2 + thumb_size t - x1, area_height := y2 + thumb_size t - y1\<rparr>)"

text \<open>\<^verbatim>\<open>_pos_get_next\<close> and \<^verbatim>\<open>_pos_get_previous\<close>, on the pair \<open>(x, y)\<close>.\<close>

definition pos_get_next :: "dt_thumbtable_t \<Rightarrow> int \<times> int \<Rightarrow> int \<times> int" where
  "pos_get_next t p =
     (case p of (px, py) \<Rightarrow>
        if mode t = DT_THUMBTABLE_MODE_FILEMANAGER then
          (if px + thumb_size t + thumb_size t > view_width t
           then (center_offset t, py + thumb_size t) else (px + thumb_size t, py))
        else if mode t = DT_THUMBTABLE_MODE_FILMSTRIP then (px + thumb_size t, py)
        else (px, py))"

definition pos_get_previous :: "dt_thumbtable_t \<Rightarrow> int \<times> int \<Rightarrow> int \<times> int" where
  "pos_get_previous t p =
     (case p of (px, py) \<Rightarrow>
        if mode t = DT_THUMBTABLE_MODE_FILEMANAGER then
          (if px - thumb_size t < 0
           then ((thumbs_per_row t - 1) * thumb_size t + center_offset t, py - thumb_size t)
           else (px - thumb_size t, py))
        else if mode t = DT_THUMBTABLE_MODE_FILMSTRIP then (px - thumb_size t, py)
        else (px, py))"

text \<open>\<^verbatim>\<open>_compute_sizes\<close>: the table and whether something has changed. In the file manager the
  thumbnail size is a quotient by the zoom and the number of rows a quotient by the
  thumbnail size. \<^verbatim>\<open>_thumbs_update_overlays_mode\<close> touches no modelled field.\<close>

definition compute_sizes ::
  "lighttable_t \<Rightarrow> dt_thumbtable_t \<Rightarrow> bool \<Rightarrow> (dt_thumbtable_t \<times> bool) option" where
  "compute_sizes e t force =
     (case allocation e of (aw, ah) \<Rightarrow>
        if aw \<le> 20 \<or> ah \<le> 20 then Some (t\<lparr>view_width := aw, view_height := ah\<rparr>, False)
        else if mode t = DT_THUMBTABLE_MODE_FILEMANAGER then
          (let npr = lighttable_zoom e in
           if force \<or> aw \<noteq> view_width t \<or> ah \<noteq> view_height t \<or> npr \<noteq> thumbs_per_row t then
             (if npr = 0 then None
              else let ts = min (aw sdiv npr) ah in
                if ts = 0 then None
                else Some (t\<lparr>thumbs_per_row := npr, view_width := aw, view_height := ah,
                             thumb_size := ts, rows := ah sdiv ts + 1,
                             center_offset := (aw - npr * ts) sdiv 2\<rparr>, True))
           else Some (t, False))
        else if mode t = DT_THUMBTABLE_MODE_FILMSTRIP then
          (if force \<or> aw \<noteq> view_width t \<or> ah \<noteq> view_height t then
             (let r = aw sdiv ah in
              Some (t\<lparr>thumbs_per_row := 1, view_width := aw, view_height := ah,
                      thumb_size := ah, center_offset := 0,
                      rows := (if r smod 2 \<noteq> 0 then r + 2 else r + 1)\<rparr>, True))
           else Some (t, False))
        else Some (t, False))"

text \<open>\<^verbatim>\<open>_thumbtable_update_scrollbars\<close> sets the scrollbars of the view and no modelled field; with
  scrollbars in the file manager it divides by the thumbnails per row.\<close>

definition thumbtable_update_scrollbars :: "dt_thumbtable_t \<Rightarrow> unit option" where
  "thumbtable_update_scrollbars t =
     (if mode t \<noteq> DT_THUMBTABLE_MODE_FILEMANAGER then Some ()
      else if \<not> scrollbars t then Some ()
      else if thumbs_per_row t = 0 then None else Some ())"

subsection \<open>Loading and removing at the edges\<close>

text \<open>\<^verbatim>\<open>_thumbs_remove_unneeded\<close>: the list without the hidden entries, and their number. The C
  loop starts again from the head after each removal; the test looks at one entry only, so
  the entries that stay are those of a single pass.\<close>

definition unneeded :: "dt_thumbtable_t \<Rightarrow> dt_thumbnail_t \<Rightarrow> bool" where
  "unneeded t th =
     (th_y th + thumb_size t \<le> 0 \<or> th_y th > view_height t
      \<or> (mode t = DT_THUMBTABLE_MODE_FILMSTRIP
          \<and> (th_x th + thumb_size t \<le> 0 \<or> th_x th > view_width t)))"

definition thumbs_remove_unneeded :: "dt_thumbtable_t \<Rightarrow> dt_thumbtable_t \<times> int" where
  "thumbs_remove_unneeded t =
     (t\<lparr>thumb_list := filter (\<lambda>th. \<not> unneeded t th) (thumb_list t)\<rparr>,
      int (length (filter (unneeded t) (thumb_list t))))"

text \<open>The two loops of \<^verbatim>\<open>_thumbs_load_needed\<close> over the rows of their query: the table and
  the counter \<^verbatim>\<open>changed\<close> are threaded through.\<close>

fun load_before ::
  "lighttable_t \<Rightarrow> (int \<times> int) list \<Rightarrow> int \<times> int \<Rightarrow> dt_thumbtable_t \<times> int
     \<Rightarrow> dt_thumbtable_t \<times> int" where
  "load_before e [] pos tc = tc"
| "load_before e ((nrow, nid) # rs) pos (t, changed) =
     (let tc1 =
        (if snd pos < view_height t
         then (case new_thumb e t nid nrow of (thumb, t1) \<Rightarrow>
                 (t1\<lparr>thumb_list := thumb\<lparr>th_x := fst pos, th_y := snd pos\<rparr> # thumb_list t1\<rparr>,
                  changed + 1))
         else (t, changed))
      in load_before e rs (pos_get_previous t pos) tc1)"

fun load_after ::
  "lighttable_t \<Rightarrow> (int \<times> int) list \<Rightarrow> int \<times> int \<Rightarrow> dt_thumbtable_t \<times> int
     \<Rightarrow> dt_thumbtable_t \<times> int" where
  "load_after e [] pos tc = tc"
| "load_after e ((nrow, nid) # rs) pos (t, changed) =
     (let tc1 =
        (if snd pos + thumb_size t \<ge> 0
         then (case new_thumb e t nid nrow of (thumb, t1) \<Rightarrow>
                 (t1\<lparr>thumb_list := thumb_list t1 @ [thumb\<lparr>th_x := fst pos, th_y := snd pos\<rparr>]\<rparr>,
                  changed + 1))
         else (t, changed))
      in load_after e rs (pos_get_next t pos) tc1)"

text \<open>\<^verbatim>\<open>nb_to_load\<close>: the space in thumbnails, rounded up.\<close>

definition nb_to_load :: "int \<Rightarrow> int \<Rightarrow> int" where
  "nb_to_load space ts = space sdiv ts + (if space smod ts \<noteq> 0 then 1 else 0)"

text \<open>The first half of \<^verbatim>\<open>_thumbs_load_needed\<close>: the images before the first entry.\<close>

definition load_needed_start :: "lighttable_t \<Rightarrow> dt_thumbtable_t \<Rightarrow> (dt_thumbtable_t \<times> int) option" where
  "load_needed_start e t =
     (let first = hd (thumb_list t) in
      if th_rowid first > 1
         \<and> ((mode t = DT_THUMBTABLE_MODE_FILEMANAGER \<and> th_y first > 0)
             \<or> (mode t = DT_THUMBTABLE_MODE_FILMSTRIP \<and> th_x first > 0))
      then (let space = (if mode t = DT_THUMBTABLE_MODE_FILMSTRIP then th_x first else th_y first) in
            if thumb_size t = 0 then None
            else Some (load_before e
                   (select_before e (th_rowid first) (nb_to_load space (thumb_size t) * thumbs_per_row t))
                   (pos_get_previous t (th_x first, th_y first)) (t, 0)))
      else Some (t, 0))"

text \<open>The second half: the images after the last entry.\<close>

definition load_needed_end ::
  "lighttable_t \<Rightarrow> dt_thumbtable_t \<times> int \<Rightarrow> (dt_thumbtable_t \<times> int) option" where
  "load_needed_end e tc =
     (case tc of (t, changed) \<Rightarrow>
        let l = last (thumb_list t) in
        if (mode t = DT_THUMBTABLE_MODE_FILEMANAGER
              \<and> th_y l + thumb_size t < view_height t
              \<and> th_x l \<ge> thumb_size t * (thumbs_per_row t - 1))
           \<or> (mode t = DT_THUMBTABLE_MODE_FILMSTRIP \<and> th_x l + thumb_size t < view_width t)
        then (let space = (if mode t = DT_THUMBTABLE_MODE_FILMSTRIP
                           then view_width t - (th_x l + thumb_size t)
                           else view_height t - (th_y l + thumb_size t)) in
              if thumb_size t = 0 then None
              else Some (load_after e
                     (select_after e (th_rowid l) (nb_to_load space (thumb_size t) * thumbs_per_row t))
                     (pos_get_next t (th_x l, th_y l)) (t, changed)))
        else Some (t, changed))"

text \<open>\<^verbatim>\<open>_thumbs_load_needed\<close>\<close>

definition thumbs_load_needed :: "lighttable_t \<Rightarrow> dt_thumbtable_t \<Rightarrow> (dt_thumbtable_t \<times> int) option" where
  "thumbs_load_needed e t =
     (if thumb_list t = [] then Some (t, 0)
      else case load_needed_start e t of None \<Rightarrow> None | Some tc \<Rightarrow> load_needed_end e tc)"

subsection \<open>The incremental move\<close>

text \<open>The outcome of the bounds check at the head of \<^verbatim>\<open>_move\<close>: the move is refused
  (\<^verbatim>\<open>return FALSE\<close>), the table is realigned by a full redraw, or the move goes on with the
  deltas \<^verbatim>\<open>posx\<close> and \<^verbatim>\<open>posy\<close>. Each outcome carries the table, whose counter
  \<^verbatim>\<open>realign_top_try\<close> the check writes.\<close>

datatype move_check_t =
  Refused dt_thumbtable_t | Realign dt_thumbtable_t | Allowed dt_thumbtable_t int int

definition move_check ::
  "lighttable_t \<Rightarrow> dt_thumbtable_t \<Rightarrow> int \<Rightarrow> int \<Rightarrow> bool \<Rightarrow> move_check_t" where
  "move_check e t dx dy clamp =
     (let first = hd (thumb_list t); l = last (thumb_list t) in
      if \<not> clamp then Allowed t dx dy
      else if mode t = DT_THUMBTABLE_MODE_FILEMANAGER then
        (if dy = 0 then Refused t
         else if th_rowid first = 1 \<and> dy > 0 \<and> th_y first \<ge> 0 then
           (if th_x first \<noteq> 0 then
              (if realign_top_try t + 1 > 2 then Realign (t\<lparr>realign_top_try := 0\<rparr>)
               else Refused (t\<lparr>realign_top_try := realign_top_try t + 1\<rparr>))
            else Refused t)
         else
           (let t1 = t\<lparr>realign_top_try := 0\<rparr> in
            if thumbs_per_row t = 1 \<and> dy < 0 \<and> length (thumb_list t) = 1 then
              (if count_collected e \<le> th_rowid l then Refused t1 else Allowed t1 0 dy)
            else if th_y l + thumb_size t < view_height t \<and> dy < 0 \<and> area_y t = 0
              then Refused t1
            else Allowed t1 0 dy))
      else if mode t = DT_THUMBTABLE_MODE_FILMSTRIP then
        (if dx = 0 then Refused t
         else if th_rowid first = 1 \<and> dx > 0 \<and> th_x first \<ge> view_width t sdiv 2 - thumb_size t
           then Refused t
         else if th_x l < view_width t sdiv 2 \<and> dx < 0 then Refused t
         else Allowed t dx 0)
      else Allowed t dx dy)"

text \<open>The end of \<^verbatim>\<open>_move\<close>: the offset follows the move, by whole thumbnails.\<close>

definition move_update_offset ::
  "lighttable_t \<Rightarrow> dt_thumbtable_t \<Rightarrow> int \<Rightarrow> int \<Rightarrow> int \<Rightarrow> dt_thumbtable_t option" where
  "move_update_offset e t posx posy old_areay =
     (if mode t = DT_THUMBTABLE_MODE_FILEMANAGER then
        (if thumb_size t = 0 then None
         else Some (let off = max 1 (offset t
                          - ((posy + old_areay) sdiv thumb_size t) * thumbs_per_row t)
                    in t\<lparr>offset := off, offset_imgid := thumb_get_imgid e off\<rparr>))
      else if mode t = DT_THUMBTABLE_MODE_FILMSTRIP then
        (if thumb_size t = 0 then None
         else Some (let off = max 1 (offset t - posx sdiv thumb_size t)
                    in t\<lparr>offset := off, offset_imgid := thumb_get_imgid e off\<rparr>))
      else Some t)"

text \<open>The entries and the area shifted by the move.\<close>

definition move_shift :: "dt_thumbtable_t \<Rightarrow> int \<Rightarrow> int \<Rightarrow> dt_thumbtable_t" where
  "move_shift t posx posy =
     t\<lparr>thumb_list :=
          map (\<lambda>th. th\<lparr>th_y := th_y th + posy, th_x := th_x th + posx\<rparr>) (thumb_list t),
       area_x := area_x t + posx, area_y := area_y t + posy\<rparr>"

text \<open>The body of \<^verbatim>\<open>_move\<close> after the check, for a move that is not zero: shift the entries
  and the area, load and remove at the edges, compute the area again if the list has
  changed, update the offset and the scrollbars.\<close>

definition move_apply ::
  "lighttable_t \<Rightarrow> dt_thumbtable_t \<Rightarrow> int \<Rightarrow> int \<Rightarrow> (dt_thumbtable_t \<times> bool) option" where
  "move_apply e t posx posy =
     Option.bind (thumbs_load_needed e (move_shift t posx posy)) (\<lambda>(t3, loaded).
       (case thumbs_remove_unneeded t3 of (t4, removed) \<Rightarrow>
          Option.bind
            (move_update_offset e (if loaded + removed > 0 then pos_compute_area t4 else t4)
               posx posy (area_y t))
            (\<lambda>t6. Option.bind (thumbtable_update_scrollbars t6) (\<lambda>_. Some (t6, True)))))"

subsection \<open>The full redraw\<close>

text \<open>The loop of \<^verbatim>\<open>dt_thumbtable_full_redraw\<close> over the rows of the query (lines 1518 to
  1558): an entry of the old list that shows the image is taken out of the old list, gets
  the row, the position and the size, and goes to the new list; otherwise a new entry is
  made. \<^verbatim>\<open>g_list_remove\<close> removes the first element that is the found one.\<close>

fun add_thumbs ::
  "lighttable_t \<Rightarrow> (int \<times> int) list \<Rightarrow> int \<times> int \<Rightarrow> dt_thumbnail_t list \<times> dt_thumbtable_t
     \<Rightarrow> dt_thumbnail_t list \<times> dt_thumbtable_t" where
  "add_thumbs e [] pos nt = nt"
| "add_thumbs e ((nrow, nid) # rs) pos (newlist, t) =
     (let (newlist1, t1) =
        (case find (\<lambda>th. list_compare_by_imgid th nid = 0) (thumb_list t) of
           Some thumb \<Rightarrow>
             (dt_thumbnail_resize (thumb\<lparr>th_rowid := nrow, th_x := fst pos, th_y := snd pos\<rparr>)
                (thumb_size t) (thumb_size t) # newlist,
              t\<lparr>thumb_list := remove1 thumb (thumb_list t)\<rparr>)
         | None \<Rightarrow>
             (case new_thumb e t nid nrow of (thumb, t') \<Rightarrow>
                (thumb\<lparr>th_x := fst pos, th_y := snd pos\<rparr> # newlist, t')));
          t2 = (if nrow = offset t1 then t1\<lparr>offset_imgid := nid\<rparr> else t1)
      in add_thumbs e rs (pos_get_next t pos) (newlist1, t2))"

text \<open>The first row to load, the position of its thumbnail and the number of empty places
  before it (lines 1470 to 1493). The file manager stores the start of the row of the
  offset as the new offset; it divides by the thumbnails per row.\<close>

definition redraw_start ::
  "dt_thumbtable_t \<Rightarrow> (dt_thumbtable_t \<times> int \<times> int \<times> int) option" where
  "redraw_start t =
     (if mode t = DT_THUMBTABLE_MODE_FILEMANAGER then
        (if thumbs_per_row t = 0 then None
         else let offset_row = (offset t - 1) sdiv thumbs_per_row t;
                  off = offset_row * thumbs_per_row t + 1
              in Some (t\<lparr>offset := off\<rparr>, center_offset t, off, 0))
      else if mode t = DT_THUMBTABLE_MODE_FILMSTRIP then
        (let off = max 1 (offset t - rows t sdiv 2);
             empty_start = - min 0 (offset t - rows t sdiv 2 - 1);
             px = (view_width t - rows t * thumb_size t) sdiv 2 + empty_start * thumb_size t
         in Some (t, px, off, empty_start))
      else Some (t, 0, offset t, 0))"

text \<open>Lines 1470 to 1564 of \<^verbatim>\<open>dt_thumbtable_full_redraw\<close>: the reload of the list from the
  collection. The entries left in the old list are destroyed, the new list is put in order
  and becomes the list of the table.\<close>

definition full_redraw_reload :: "lighttable_t \<Rightarrow> dt_thumbtable_t \<Rightarrow> dt_thumbtable_t option" where
  "full_redraw_reload e t =
     (case redraw_start t of
        None \<Rightarrow> None
      | Some (t1, px, off, empty_start) \<Rightarrow>
          (case add_thumbs e
                  (select_from e off (rows t1 * thumbs_per_row t1 - empty_start)) (px, 0) ([], t1) of
             (newlist, t2) \<Rightarrow> Some (pos_compute_area (t2\<lparr>thumb_list := rev newlist\<rparr>))))"

text \<open>The entries that the reload destroys: what the loop has left in the old list when line
  1561 frees it with \<^verbatim>\<open>g_list_free_full(table->list, _list_remove_thumb)\<close>, which calls
  \<^verbatim>\<open>dt_thumbnail_destroy\<close> on each of them.\<close>

definition full_redraw_destroyed :: "lighttable_t \<Rightarrow> dt_thumbtable_t \<Rightarrow> dt_thumbnail_t list option" where
  "full_redraw_destroyed e t =
     (case redraw_start t of
        None \<Rightarrow> None
      | Some (t1, px, off, empty_start) \<Rightarrow>
          (case add_thumbs e
                  (select_from e off (rows t1 * thumbs_per_row t1 - empty_start)) (px, 0) ([], t1) of
             (newlist, t2) \<Rightarrow> Some (thumb_list t2)))"

text \<open>One round of \<^verbatim>\<open>_filemanager_ensure_rowid_visibility\<close> on a list that is not empty:
  the row is between the first entry and the last fully visible one, or the table has to
  move by the given vertical delta. The index of the last fully visible entry is a
  \<^verbatim>\<open>MIN\<close> of a \<^verbatim>\<open>guint\<close> and an \<^verbatim>\<open>int\<close>, taken on \<^verbatim>\<open>guint\<close>; the number of rows to move
  is a quotient by the thumbnails per row.\<close>

datatype ensure_step_t = Visible | Scroll int

definition ensure_rowid_step :: "dt_thumbtable_t \<Rightarrow> int \<Rightarrow> ensure_step_t option" where
  "ensure_rowid_step t rowid =
     (let first = hd (thumb_list t);
          a = to_guint (int (length (thumb_list t)) - 1);
          b = to_guint (thumbs_per_row t * (rows t - 1) - 1);
          pos = (if a < b then a else b)
      in if th_rowid first > rowid then
           (if thumbs_per_row t = 0 then None
            else Some (Scroll (max 1 ((th_rowid first - rowid) sdiv thumbs_per_row t)
                                 * thumb_size t)))
         else (case g_list_nth_data (thumb_list t) pos of
                 None \<Rightarrow> None
               | Some l \<Rightarrow>
                   if th_rowid l < rowid then
                     (if thumbs_per_row t = 0 then None
                      else Some (Scroll (- max 1 ((rowid - th_rowid l) sdiv thumbs_per_row t)
                                           * thumb_size t)))
                   else Some Visible))"

text \<open>The loop of \<^verbatim>\<open>dt_thumbtable_full_redraw\<close> over the selection (lines 1576 to 1581): the
  first entry that shows a selected image reads its infos again.\<close>

fun update_first :: "('a \<Rightarrow> bool) \<Rightarrow> ('a \<Rightarrow> 'a) \<Rightarrow> 'a list \<Rightarrow> 'a list" where
  "update_first P f [] = []"
| "update_first P f (a # l) = (if P a then f a # l else a # update_first P f l)"

definition update_selected_infos :: "lighttable_t \<Rightarrow> dt_thumbtable_t \<Rightarrow> dt_thumbtable_t" where
  "update_selected_infos e t =
     t\<lparr>thumb_list :=
          foldl (\<lambda>l imgid. if imgid \<le> 0 then l
                            else update_first (\<lambda>th. th_imgid th = imgid) (dt_thumbnail_update_infos e) l)
                (thumb_list t) (selection e)\<rparr>"

text \<open>\<^verbatim>\<open>_move\<close>, \<^verbatim>\<open>dt_thumbtable_full_redraw\<close>, \<^verbatim>\<open>dt_thumbtable_ensure_imgid_visibility\<close> and
  \<^verbatim>\<open>_filemanager_ensure_rowid_visibility\<close> call each other. The first argument bounds the
  number of moves that one call of the last function may still make, directly or through
  the others; without a move left there is no result. The functions that return a
  \<^verbatim>\<open>gboolean\<close> return it with the table.\<close>

function
  move :: "nat \<Rightarrow> lighttable_t \<Rightarrow> dt_thumbtable_t \<Rightarrow> int \<Rightarrow> int \<Rightarrow> bool
             \<Rightarrow> (dt_thumbtable_t \<times> bool) option"
and dt_thumbtable_full_redraw :: "nat \<Rightarrow> lighttable_t \<Rightarrow> dt_thumbtable_t \<Rightarrow> bool
             \<Rightarrow> dt_thumbtable_t option"
and dt_thumbtable_ensure_imgid_visibility :: "nat \<Rightarrow> lighttable_t \<Rightarrow> dt_thumbtable_t \<Rightarrow> int
             \<Rightarrow> (dt_thumbtable_t \<times> bool) option"
and filemanager_ensure_rowid_visibility :: "nat \<Rightarrow> lighttable_t \<Rightarrow> dt_thumbtable_t \<Rightarrow> int
             \<Rightarrow> (dt_thumbtable_t \<times> bool) option"
where
  "move n e t dx dy clamp =
     (if thumb_list t = [] then Some (t, False)
      else case move_check e t dx dy clamp of
             Refused t1 \<Rightarrow> Some (t1, False)
           | Realign t1 \<Rightarrow>
               (case dt_thumbtable_full_redraw n e t1 True of
                  None \<Rightarrow> None | Some t2 \<Rightarrow> Some (t2, True))
           | Allowed t1 posx posy \<Rightarrow>
               if posy = 0 \<and> posx = 0 then Some (t1, False) else move_apply e t1 posx posy)"
| "dt_thumbtable_full_redraw n e t force =
     (case compute_sizes e t force of
        None \<Rightarrow> None
      | Some (t1, changed) \<Rightarrow>
          if \<not> changed then Some t1
          else (case thumbtable_update_scrollbars t1 of
                  None \<Rightarrow> None
                | Some _ \<Rightarrow>
                   (case full_redraw_reload e (t1\<lparr>dragging := False\<rparr>) of
                      None \<Rightarrow> None
                    | Some t2 \<Rightarrow>
                       (case (if selection_first_id e > - 1 \<and> mode t2 = DT_THUMBTABLE_MODE_FILEMANAGER
                              then (case dt_thumbtable_ensure_imgid_visibility n e t2 (selection_first_id e) of
                                      None \<Rightarrow> None
                                    | Some (t3, _) \<Rightarrow> Some (update_selected_infos e t3))
                              else Some t2) of
                          None \<Rightarrow> None
                        | Some t4 \<Rightarrow>
                            Some (if force
                                  then t4\<lparr>thumb_list := map (dt_thumbnail_update_selection e) (thumb_list t4)\<rparr>
                                  else t4)))))"
| "dt_thumbtable_ensure_imgid_visibility n e t imgid =
     (if imgid < 1 then Some (t, False)
      else if mode t = DT_THUMBTABLE_MODE_FILEMANAGER
        then filemanager_ensure_rowid_visibility n e t (thumb_get_rowid e imgid)
      else Some (t, False))"
| "filemanager_ensure_rowid_visibility n e t rowid =
     (if thumb_list t = [] then Some (t, False)
      else case ensure_rowid_step t (if rowid < 1 then 1 else rowid) of
             None \<Rightarrow> None
           | Some Visible \<Rightarrow> Some (t, True)
           | Some (Scroll dy) \<Rightarrow>
               (case n of
                  0 \<Rightarrow> None
                | Suc k \<Rightarrow>
                    (case move k e t 0 dy True of
                       None \<Rightarrow> None
                     | Some (t1, moved) \<Rightarrow>
                         if moved
                         then filemanager_ensure_rowid_visibility k e t1 (if rowid < 1 then 1 else rowid)
                         else Some (t1, False))))"
  by pat_completeness auto
termination
  by (relation "measure (\<lambda>v. case v of
         Inl (Inl (n, _)) \<Rightarrow> 4 * n + 3
       | Inl (Inr (n, _)) \<Rightarrow> 4 * n + 2
       | Inr (Inl (n, _)) \<Rightarrow> 4 * n + 1
       | Inr (Inr (n, _)) \<Rightarrow> 4 * n)") auto

subsection \<open>Scrolling\<close>



subsection \<open>Setting the offset\<close>

text \<open>\<^verbatim>\<open>dt_thumbtable_new\<close>, from the offset stored in the configuration: the other fields are
  those of a zeroed structure.\<close>

definition dt_thumbtable_new :: "int \<Rightarrow> dt_thumbtable_t" where
  "dt_thumbtable_new pos0 =
     \<lparr>mode = DT_THUMBTABLE_MODE_NONE, offset = max 1 pos0, offset_imgid = 0, thumb_size = 0,
      thumbs_per_row = 0, rows = 0, center_offset = 0, view_width = 0, view_height = 0,
      area_x = 0, area_y = 0, area_width = 0, area_height = 0, thumb_list = [],
      realign_top_try = 0, dragging = False, mouse_inside = False, scrollbars = False,
      heap_next = 0\<rparr>"

text \<open>\<^verbatim>\<open>dt_thumbtable_set_offset\<close>\<close>

definition dt_thumbtable_set_offset ::
  "nat \<Rightarrow> lighttable_t \<Rightarrow> dt_thumbtable_t \<Rightarrow> int \<Rightarrow> bool \<Rightarrow> (dt_thumbtable_t \<times> bool) option" where
  "dt_thumbtable_set_offset n e t off redraw =
     (if off < 1 \<or> off = offset t then Some (t, False)
      else if redraw
        then (case dt_thumbtable_full_redraw n e (t\<lparr>offset := off\<rparr>) True of
                None \<Rightarrow> None | Some t1 \<Rightarrow> Some (t1, True))
      else Some (t\<lparr>offset := off\<rparr>, True))"

subsection \<open>The collection has changed\<close>

datatype dt_collection_change_t = DT_COLLECTION_CHANGE_RELOAD | DT_COLLECTION_CHANGE_OTHER

text \<open>The two searches of \<^verbatim>\<open>_dt_collection_changed_callback\<close> through the entries still in the
  table, for the first one after the entry of \<^verbatim>\<open>newid\<close> whose image is in the new
  collection. The pair is \<^verbatim>\<open>(nrow, newid)\<close>; the backward search runs on the reversed list.\<close>

fun find_valid_after ::
  "lighttable_t \<Rightarrow> dt_thumbnail_t list \<Rightarrow> bool \<Rightarrow> int \<times> int \<Rightarrow> int \<times> int" where
  "find_valid_after e [] after nn = nn"
| "find_valid_after e (thumb # l) after (nrow, newid) =
     (if after then
        (if thumb_get_rowid e (th_imgid thumb) > 0
         then (thumb_get_rowid e (th_imgid thumb), th_imgid thumb)
         else find_valid_after e l True (thumb_get_rowid e (th_imgid thumb), newid))
      else find_valid_after e l (th_imgid thumb = newid) (nrow, newid))"

text \<open>The row and the image of the new offset (lines 1043 to 1109).\<close>

definition changed_new_offset :: "lighttable_t \<Rightarrow> dt_thumbtable_t \<Rightarrow> int list \<Rightarrow> int \<Rightarrow> int \<times> int" where
  "changed_new_offset e t imgs next_id =
     (let newid0 = (if offset_imgid t \<le> 0 \<and> offset t > 0
                    then thumb_get_imgid e (offset t) else offset_imgid t);
          newid = (if offset_imgid t \<in> set imgs \<and> next_id > 0
                      \<and> thumb_get_rowid e (offset_imgid t) \<noteq> offset t
                   then next_id else newid0);
          nn0 = (thumb_get_rowid e newid, newid);
          nn1 = (if fst nn0 \<le> 0 then find_valid_after e (thumb_list t) False nn0 else nn0)
      in if fst nn1 \<le> 0 then find_valid_after e (rev (thumb_list t)) False nn1 else nn1)"

text \<open>\<^verbatim>\<open>_dt_collection_changed_callback\<close>: the table, and the hovered image that the last
  lines set with \<^verbatim>\<open>dt_control_set_mouse_over_id\<close>.\<close>

definition dt_collection_changed_callback ::
  "nat \<Rightarrow> lighttable_t \<Rightarrow> dt_thumbtable_t \<Rightarrow> dt_collection_change_t \<Rightarrow> int list \<Rightarrow> int
     \<Rightarrow> (dt_thumbtable_t \<times> int) option" where
  "dt_collection_changed_callback n e t query_change imgs next_id =
     (if query_change = DT_COLLECTION_CHANGE_RELOAD then
        do {
          let tmpoff = selection_first_id e;
          let strip_moves = (mode t = DT_THUMBTABLE_MODE_FILMSTRIP \<and> tmpoff > - 1
                             \<and> tmpoff \<noteq> offset_imgid t);
          let old_offset = (if strip_moves then offset_imgid t else - 1);
          t1 \<leftarrow> (if strip_moves
                 then dt_thumbtable_full_redraw n e
                        (t\<lparr>offset := thumb_get_rowid e tmpoff, offset_imgid := tmpoff\<rparr>) True
                 else Some t);
          let nn = changed_new_offset e t1 imgs next_id;
          t2 \<leftarrow> dt_thumbtable_full_redraw n e
                 (t1\<lparr>offset_imgid := (if fst nn \<ge> 1 then snd nn else thumb_get_imgid e 1),
                     offset := max 1 (fst nn)\<rparr>) True;
          t3 \<leftarrow> (if old_offset > 0 \<and> old_offset \<noteq> offset t2 \<and> thumb_get_rowid e old_offset > 0
                 then dt_thumbtable_full_redraw n e
                        (t2\<lparr>offset := thumb_get_rowid e old_offset, offset_imgid := old_offset\<rparr>) True
                 else Some t2);
          Some (t3,
                if hover_id e > 0 \<and> next_id > 0
                   \<and> (mouse_inside t3 \<or> \<not> view_is_darkroom e)
                   \<and> \<not> (\<exists>thumb \<in> set (thumb_list t3). th_imgid thumb = hover_id e)
                   \<and> (\<exists>thumb \<in> set (thumb_list t3). th_imgid thumb = next_id)
                then next_id else hover_id e)
        }
      else
        do {
          t1 \<leftarrow> dt_thumbtable_full_redraw n e (t\<lparr>offset := 1, offset_imgid := thumb_get_imgid e 1\<rparr>) True;
          Some (t1, hover_id e)
        })"

subsection \<open>The hovered image has changed\<close>

text \<open>The first loop of \<^verbatim>\<open>_dt_mouse_over_image_callback\<close>: the group of the hovered entry,
  \<open>-1\<close> when no entry shows the hovered image or the image is not grouped.\<close>

definition mouse_over_groupid :: "int \<Rightarrow> dt_thumbnail_t list \<Rightarrow> int" where
  "mouse_over_groupid imgid l =
     foldl (\<lambda>groupid th. if th_imgid th = imgid \<and> th_is_grouped th then th_groupid th else groupid)
       (- 1) l"

text \<open>What the first loop does to an entry: the hover flag, and no border left.\<close>

definition mouse_over_reset :: "int \<Rightarrow> dt_thumbnail_t \<Rightarrow> dt_thumbnail_t" where
  "mouse_over_reset imgid th =
     (let th1 = (if th_mouse_over th \<noteq> (th_imgid th = imgid)
                 then dt_thumbnail_set_mouseover th (th_imgid th = imgid) else th)
      in if th_group_borders th1 \<noteq> {}
         then dt_thumbnail_set_group_border th1 DT_THUMBNAIL_BORDER_NONE else th1)"

text \<open>\<^verbatim>\<open>th1 = g_list_nth_data(table->list, n); if(th1->groupid == groupid) b = FALSE;\<close> as the
  value of \<^verbatim>\<open>b\<close>; there is no result when \<^verbatim>\<open>th1\<close> is \<^verbatim>\<open>NULL\<close>.\<close>

definition not_in_group :: "dt_thumbnail_t list \<Rightarrow> int \<Rightarrow> int \<Rightarrow> bool option" where
  "not_in_group l n groupid =
     (case g_list_nth_data l n of None \<Rightarrow> None | Some th1 \<Rightarrow> Some (th_groupid th1 \<noteq> groupid))"

text \<open>The body of the second loop for the entry at position \<open>pos\<close>, which is in the group
  (lines 939 to 1000). The test \<^verbatim>\<open>(th->x + th->width * 1.5) < table->thumbs_area.width\<close> is
  on \<^verbatim>\<open>double\<close>; doubled, it is a test on integers.\<close>

definition set_group_borders ::
  "dt_thumbtable_t \<Rightarrow> int \<Rightarrow> int \<Rightarrow> dt_thumbnail_t \<Rightarrow> dt_thumbnail_t option" where
  "set_group_borders t groupid pos th =
     (let l = thumb_list t; strip = (mode t = DT_THUMBTABLE_MODE_FILMSTRIP) in
      do {
        th1 \<leftarrow> (if \<not> strip then
                  do {
                    b_left \<leftarrow> (if pos \<noteq> 0 \<and> th_x th \<noteq> area_x t
                               then not_in_group l (pos - 1) groupid else Some True);
                    let tha = (if b_left then dt_thumbnail_set_group_border th DT_THUMBNAIL_BORDER_LEFT
                               else th);
                    b_right \<leftarrow> (if \<not> strip \<and> to_guint pos < to_guint (int (length l) - 1)
                                   \<and> 2 * th_x th + 3 * th_width th < 2 * area_width t
                                then not_in_group l (to_guint (pos + 1)) groupid else Some True);
                    Some (if b_right then dt_thumbnail_set_group_border tha DT_THUMBNAIL_BORDER_RIGHT
                          else tha)
                  }
                else Some (dt_thumbnail_set_group_border
                             (dt_thumbnail_set_group_border th DT_THUMBNAIL_BORDER_TOP)
                             DT_THUMBNAIL_BORDER_BOTTOM));
        b_top \<leftarrow> (if pos - thumbs_per_row t \<ge> 0
                  then not_in_group l (pos - thumbs_per_row t) groupid else Some True);
        let th2 = (if b_top
                   then dt_thumbnail_set_group_border th1
                          (if strip then DT_THUMBNAIL_BORDER_LEFT else DT_THUMBNAIL_BORDER_TOP)
                   else th1);
        b_bottom \<leftarrow> (if to_guint (pos + thumbs_per_row t) < int (length l)
                     then not_in_group l (to_guint (pos + thumbs_per_row t)) groupid else Some True);
        Some (if b_bottom
              then dt_thumbnail_set_group_border th2
                     (if strip then DT_THUMBNAIL_BORDER_RIGHT else DT_THUMBNAIL_BORDER_BOTTOM)
              else th2)
      })"

text \<open>The second loop, from position \<open>pos\<close> on. The table holds the whole list, in which the
  loop looks up the neighbours; their groups do not change.\<close>

fun group_borders_loop ::
  "dt_thumbtable_t \<Rightarrow> int \<Rightarrow> int \<Rightarrow> dt_thumbnail_t list \<Rightarrow> dt_thumbnail_t list option" where
  "group_borders_loop t groupid pos [] = Some []"
| "group_borders_loop t groupid pos (th # l) =
     do {
       th' \<leftarrow> (if th_groupid th = groupid then set_group_borders t groupid pos th else Some th);
       l' \<leftarrow> group_borders_loop t groupid (pos + 1) l;
       Some (th' # l')
     }"

text \<open>\<^verbatim>\<open>_dt_mouse_over_image_callback\<close>\<close>

definition dt_mouse_over_image_callback :: "lighttable_t \<Rightarrow> dt_thumbtable_t \<Rightarrow> dt_thumbtable_t option" where
  "dt_mouse_over_image_callback e t =
     (let imgid = hover_id e;
          groupid = mouse_over_groupid imgid (thumb_list t);
          t1 = t\<lparr>thumb_list := map (mouse_over_reset imgid) (thumb_list t)\<rparr>
      in if groupid > 0
         then map_option (\<lambda>l. t1\<lparr>thumb_list := l\<rparr>) (group_borders_loop t1 groupid 0 (thumb_list t1))
         else Some t1)"

section \<open>Reuse of entries, in the words of the spec\<close>

text \<open>What the spec asks of the entry that a full redraw puts at position \<open>pos\<close> for the row
  \<open>(row_number, image_id)\<close> of the collection, given the table \<open>t\<close> before the reload: if the
  old list holds an entry for the image, the new entry is the first such entry itself, with
  its row number, position and size updated and nothing else touched; otherwise it is a
  new object, at an address that was free before, made by \<^verbatim>\<open>dt_thumbnail_new\<close> for the image
  and the row.\<close>

definition reconciled ::
  "lighttable_t \<Rightarrow> dt_thumbtable_t \<Rightarrow> int \<times> int \<Rightarrow> int \<times> int \<Rightarrow> dt_thumbnail_t \<Rightarrow> bool" where
  "reconciled e t pos row th' =
     (case find (\<lambda>th. list_compare_by_imgid th (snd row) = 0) (thumb_list t) of
        Some th \<Rightarrow>
          th' = th\<lparr>th_rowid := fst row, th_x := fst pos, th_y := snd pos,
                   th_width := thumb_size t, th_height := thumb_size t\<rparr>
      | None \<Rightarrow>
          (\<exists>ref. heap_next t \<le> ref
             \<and> th' = (dt_thumbnail_new e ref (thumb_size t) (thumb_size t) (snd row) (fst row))
                      \<lparr>th_x := fst pos, th_y := snd pos\<rparr>))"

text \<open>The new list against the rows of the query: one entry for each row, in the order of the
  rows, at the successive positions of the layout, and no other entry.\<close>

fun reconciled_list ::
  "lighttable_t \<Rightarrow> dt_thumbtable_t \<Rightarrow> int \<times> int \<Rightarrow> (int \<times> int) list \<Rightarrow> dt_thumbnail_t list
     \<Rightarrow> bool" where
  "reconciled_list e t pos [] ents = (ents = [])"
| "reconciled_list e t pos (row # q) ents =
     (case ents of
        [] \<Rightarrow> False
      | th' # r \<Rightarrow> reconciled e t pos row th' \<and> reconciled_list e t (pos_get_next t pos) q r)"

section \<open>The images to act on, in the words of the spec\<close>

text \<open>What an active image brings into the set when \<open>onlyVisible\<close> is false. With the grouping
  preference on and the group of the image not the one expanded in the user interface, it
  is the image and every member of its group that matches the filter of the collection:
  every image that the query of the collection without grouping selects and that has a row
  in \<^verbatim>\<open>main.images\<close> with the group of the active image. Otherwise it is the image alone.
  The image alone is also what an image unknown to the image cache brings, and what any
  image brings when there is no user interface or no collection.\<close>

definition active_image_brings :: "darktable_t \<Rightarrow> int \<Rightarrow> int set" where
  "active_image_brings d imgid =
     (case (gui d, image_cache d imgid, selection_collection d) of
        (Some g, Some img_group_id, Some ids) \<Rightarrow>
          if grouping g \<and> expanded_group_id g \<noteq> img_group_id
          then insert imgid {i \<in> set ids. (i, img_group_id) \<in> set (main_images d)}
          else {imgid}
      | _ \<Rightarrow> {imgid})"

text \<open>The validity of the cache as C5 words it: the same hovered image, the same
  mouse-inside flag and, with the mouse outside the table, the same active images.\<close>

definition claimed_valid :: "darktable_t \<Rightarrow> dt_act_on_cache_t \<Rightarrow> bool" where
  "claimed_valid d cache =
     (case gui d of
        None \<Rightarrow> False
      | Some g \<Rightarrow>
          cache_image_over cache = mouse_over_id d
          \<and> cache_inside_table cache = ui_mouse_inside g
          \<and> (\<not> ui_mouse_inside g \<longrightarrow> cache_active_imgs cache = active_images d))"

section \<open>The layout of a filmstrip\<close>


section \<open>Example states\<close>

text \<open>The concrete inputs at which the theorems below are evaluated. A filmstrip table in a
  viewport of 500 by 100 pixels, on a collection of three images.\<close>

definition strip_table :: dt_thumbtable_t where
  "strip_table = (dt_thumbtable_new 1)\<lparr>mode := DT_THUMBTABLE_MODE_FILMSTRIP\<rparr>"

definition strip_env :: lighttable_t where
  "strip_env = \<lparr>collected_images = [11, 12, 13], allocation = (500, 100), lighttable_zoom = 5,
     selection_first_id = - 1, selection = [], image_infos = (\<lambda>_. (False, 0)), hover_id = - 1,
     view_is_darkroom = False\<rparr>"

text \<open>The same table after a redraw, holding a single entry: the last image of the collection,
  one place to the right of the centre.\<close>

definition strip_single :: dt_thumbtable_t where
  "strip_single = strip_table\<lparr>thumb_size := 100, thumbs_per_row := 1, rows := 7,
      view_width := 500, view_height := 100, offset := 2, offset_imgid := 12,
      area_x := 300, area_y := 0, area_width := 100, area_height := 100,
      thumb_list := [(dt_thumbnail_new strip_env 0 100 100 13 3)\<lparr>th_x := 300, th_y := 0\<rparr>],
      heap_next := 1\<rparr>"


text \<open>A file manager with two thumbnails per row in a viewport of 200 by 250 pixels, on the
  same collection and without a selection: drawn from row 1, then with the offset set to row
  2 without a redraw.\<close>

definition wide_env :: lighttable_t where
  "wide_env = strip_env\<lparr>allocation := (200, 250), lighttable_zoom := 2\<rparr>"

definition wide_drawn :: dt_thumbtable_t where
  "wide_drawn = the (dt_thumbtable_full_redraw 0 wide_env
                       ((dt_thumbtable_new 1)\<lparr>mode := DT_THUMBTABLE_MODE_FILEMANAGER\<rparr>) True)"

definition wide_shifted :: dt_thumbtable_t where
  "wide_shifted = fst (the (dt_thumbtable_set_offset 0 wide_env wide_drawn 2 False))"

text \<open>A file manager with one thumbnail per row in a viewport of 100 by 250 pixels, on a
  collection of six images of which the first is selected. The table has the offset 4; its
  list holds the rows 4 to 6 in one state and the rows 1 to 3 in the other.\<close>

definition grid_env :: lighttable_t where
  "grid_env = \<lparr>collected_images = [11, 12, 13, 14, 15, 16], allocation = (100, 250),
     lighttable_zoom = 1, selection_first_id = 11, selection = [11],
     image_infos = (\<lambda>_. (False, 0)), hover_id = - 1, view_is_darkroom = False\<rparr>"

definition grid_table :: dt_thumbtable_t where
  "grid_table = (dt_thumbtable_new 4)\<lparr>mode := DT_THUMBTABLE_MODE_FILEMANAGER,
      offset_imgid := 14, thumb_size := 100, thumbs_per_row := 1, rows := 3,
      view_width := 100, view_height := 250, area_width := 100, area_height := 300,
      thumb_list := [(dt_thumbnail_new grid_env 0 100 100 14 4)\<lparr>th_x := 0, th_y := 0\<rparr>,
                     (dt_thumbnail_new grid_env 1 100 100 15 5)\<lparr>th_x := 0, th_y := 100\<rparr>,
                     (dt_thumbnail_new grid_env 2 100 100 16 6)\<lparr>th_x := 0, th_y := 200\<rparr>],
      heap_next := 3\<rparr>"

definition grid_table_top :: dt_thumbtable_t where
  "grid_table_top = grid_table\<lparr>
      thumb_list := [(dt_thumbnail_new grid_env 0 100 100 11 1)\<lparr>th_x := 0, th_y := 0\<rparr>,
                     (dt_thumbnail_new grid_env 1 100 100 12 2)\<lparr>th_x := 0, th_y := 100\<rparr>,
                     (dt_thumbnail_new grid_env 2 100 100 13 3)\<lparr>th_x := 0, th_y := 200\<rparr>]\<rparr>"

text \<open>The same collection with nothing selected and with image 15 selected, and the second
  table with the offset 3.\<close>

definition grid_env_none :: lighttable_t where
  "grid_env_none = grid_env\<lparr>selection_first_id := - 1, selection := []\<rparr>"

definition grid_env_shown :: lighttable_t where
  "grid_env_shown = grid_env\<lparr>selection_first_id := 15, selection := [15]\<rparr>"

definition grid_table_mid :: dt_thumbtable_t where
  "grid_table_mid = grid_table_top\<lparr>offset := 3\<rparr>"

text \<open>The first of these tables in a viewport of 100 by 200 pixels, whose height is twice the
  thumbnail size, and the table that one forced full redraw makes of it.\<close>

definition flush_env :: lighttable_t where
  "flush_env = grid_env\<lparr>allocation := (100, 200)\<rparr>"

definition flush_table :: dt_thumbtable_t where
  "flush_table = grid_table\<lparr>view_height := 200\<rparr>"

definition flush_once :: dt_thumbtable_t where
  "flush_once = the (dt_thumbtable_full_redraw 2 flush_env flush_table True)"

text \<open>The darkroom with the mouse over image 5 of the filmstrip, nothing selected and image 1
  active; the caches before any query and after a query for the visible images; the same
  environment with image 2 active.\<close>

definition act_env :: darktable_t where
  "act_env = \<lparr>gui = Some \<lparr>grouping = False, expanded_group_id = - 1, ui_mouse_inside = True\<rparr>,
     mouse_over_id = 5, active_images = [1], selection_list = (\<lambda>_ _. []),
     image_cache = (\<lambda>_. None), selection_collection = None, main_images = []\<rparr>"

definition act_empty_cache :: dt_act_on_cache_t where
  "act_empty_cache = \<lparr>cache_ok = False, cache_ordered = False, cache_images = [],
     cache_images_nb = 0, cache_image_over = 0, cache_active_imgs = [],
     cache_inside_table = False\<rparr>"

definition act_vm :: dt_view_manager_t where
  "act_vm = \<lparr>act_on_cache_visible = act_empty_cache, act_on_cache_all = act_empty_cache\<rparr>"

definition act_vm_filled :: dt_view_manager_t where
  "act_vm_filled = snd (the (dt_act_on_get_images act_env act_vm True False False))"

definition act_env_next :: darktable_t where
  "act_env_next = act_env\<lparr>active_images := [2]\<rparr>"

text \<open>A library of three images, 1 and 2 in group 7 and 3 in group 8, all in the collection;
  grouping is on, no group is expanded, image 1 is active and image 3 is selected.\<close>

definition group_env :: darktable_t where
  "group_env = \<lparr>gui = Some \<lparr>grouping = True, expanded_group_id = - 1, ui_mouse_inside = False\<rparr>,
     mouse_over_id = - 1, active_images = [1], selection_list = (\<lambda>_ _. [3]),
     image_cache = map_of [(1, 7), (2, 7), (3, 8)], selection_collection = Some [1, 2, 3],
     main_images = [(1, 7), (2, 7), (3, 8)]\<rparr>"

text \<open>A library of four images, 1 and 2 in group 7 and 3 and 4 in group 8, all in the
  collection and none selected; grouping is on, no group is expanded, the mouse is inside
  the table and over image 2. Image 1 is active in the first environment and image 3 in the
  second; the caches are those that a query for all images leaves in the first.\<close>

definition stale_env :: darktable_t where
  "stale_env = \<lparr>gui = Some \<lparr>grouping = True, expanded_group_id = - 1, ui_mouse_inside = True\<rparr>,
     mouse_over_id = 2, active_images = [1], selection_list = (\<lambda>_ _. []),
     image_cache = map_of [(1, 7), (2, 7), (3, 8), (4, 8)],
     selection_collection = Some [1, 2, 3, 4],
     main_images = [(1, 7), (2, 7), (3, 8), (4, 8)]\<rparr>"

definition stale_vm :: dt_view_manager_t where
  "stale_vm = snd (the (dt_act_on_get_images stale_env act_vm False False False))"

definition stale_env_next :: darktable_t where
  "stale_env_next = stale_env\<lparr>active_images := [3]\<rparr>"

text \<open>A filmstrip with two neighbours of one group, the mouse over the first of them.\<close>

definition hover_env :: lighttable_t where
  "hover_env = strip_env\<lparr>hover_id := 11, image_infos := (\<lambda>_. (True, 7))\<rparr>"

definition strip_pair :: dt_thumbtable_t where
  "strip_pair = strip_single\<lparr>
      thumb_list := [(dt_thumbnail_new hover_env 0 100 100 11 1)\<lparr>th_x := 200, th_y := 0\<rparr>,
                     (dt_thumbnail_new hover_env 1 100 100 12 2)\<lparr>th_x := 300, th_y := 0\<rparr>],
      heap_next := 2\<rparr>"

section \<open>Arithmetic of C on non-negative operands\<close>

lemma sdiv_nonneg_pos: "0 \<le> a \<Longrightarrow> 0 < b \<Longrightarrow> (a::int) sdiv b = a div b"
  by (simp add: signed_divide_int_def sgn_if)

lemma smod_nonneg_pos: "0 \<le> a \<Longrightarrow> 0 < b \<Longrightarrow> (a::int) smod b = a mod b"
  by (simp add: signed_modulo_int_def sgn_if)

section \<open>Unfolding the model on concrete states\<close>

lemmas example_defs = strip_single_def strip_env_def strip_table_def dt_thumbtable_new_def
  dt_thumbnail_new_def

lemmas move_defs = move_check_def move_apply_def move_shift_def thumbs_load_needed_def
  load_needed_start_def load_needed_end_def thumbs_remove_unneeded_def unneeded_def
  move_update_offset_def thumbtable_update_scrollbars_def nb_to_load_def select_after_def
  select_before_def sql_limit_def collected_rows_def thumb_get_imgid_def pos_get_next_def
  pos_get_previous_def new_thumb_def pos_compute_area_def count_collected_def

lemmas redraw_defs = compute_sizes_def full_redraw_reload_def redraw_start_def select_from_def
  list_compare_by_imgid_def dt_thumbnail_resize_def dt_thumbnail_update_selection_def
  update_selected_infos_def dt_thumbnail_update_infos_def ensure_rowid_step_def
  g_list_nth_data_def to_guint_def thumb_get_rowid_def INT_MAX_def INT_MIN_def

lemmas grid_defs = grid_env_def grid_table_def grid_table_top_def dt_thumbtable_new_def
  dt_thumbnail_new_def

lemma wide_drawn_eq:
  "wide_drawn = \<lparr>mode = DT_THUMBTABLE_MODE_FILEMANAGER, offset = 1, offset_imgid = 11,
      thumb_size = 100, thumbs_per_row = 2, rows = 3, center_offset = 0, view_width = 200,
      view_height = 250, area_x = 0, area_y = 0, area_width = 200, area_height = 200,
      thumb_list = [(dt_thumbnail_new wide_env 0 100 100 11 1)\<lparr>th_x := 0, th_y := 0\<rparr>,
                    (dt_thumbnail_new wide_env 1 100 100 12 2)\<lparr>th_x := 100, th_y := 0\<rparr>,
                    (dt_thumbnail_new wide_env 2 100 100 13 3)\<lparr>th_x := 0, th_y := 100\<rparr>],
      realign_top_try = 0, dragging = False, mouse_inside = False, scrollbars = False,
      heap_next = 3\<rparr>"
  by (simp add: wide_drawn_def wide_env_def example_defs redraw_defs move_defs
      signed_divide_int_def signed_modulo_int_def)

section \<open>Sizes in the filmstrip\<close>

text \<open>C8, as the claim states it, fails: in the viewport of 500 by 100 pixels the filmstrip
  gets 7 positions, an odd number, where the claim asks for an even one.\<close>

theorem strip_rows_even_counterexample:
  "rows (fst (the (compute_sizes strip_env strip_table True))) = 7
   \<and> \<not> even (rows (fst (the (compute_sizes strip_env strip_table True))))"
  by (simp add: compute_sizes_def strip_env_def strip_table_def dt_thumbtable_new_def
      signed_divide_int_def signed_modulo_int_def)

text \<open>C8, amended: in the filmstrip, for a viewport wider and higher than 20 pixels,
  \<^verbatim>\<open>_compute_sizes\<close> recomputes when it is forced or the viewport has changed; it then sets
  the thumbnail size to the viewport height, one thumbnail per row, and the number of
  positions to the smallest odd number strictly greater than viewport width / thumbnail
  size, so that one position is the central one.\<close>

theorem compute_sizes_filmstrip:
  assumes "mode t = DT_THUMBTABLE_MODE_FILMSTRIP" "allocation e = (aw, ah)" "20 < aw" "20 < ah"
    "force \<or> aw \<noteq> view_width t \<or> ah \<noteq> view_height t"
  shows "\<exists>t'. compute_sizes e t force = Some (t', True) \<and> thumb_size t' = ah
           \<and> thumbs_per_row t' = 1 \<and> odd (rows t') \<and> (rows t' - 2) * ah \<le> aw \<and> aw < rows t' * ah"
proof -
  define q where "q = aw div ah"
  define m where "m = aw mod ah"
  have r: "aw sdiv ah = q" using assms by (simp add: sdiv_nonneg_pos q_def)
  have q0: "0 \<le> q" using assms by (simp add: pos_imp_zdiv_nonneg_iff q_def)
  have sm: "q smod 2 = q mod 2" using q0 by (simp add: smod_nonneg_pos)
  have aw: "aw = q * ah + m" by (simp add: q_def m_def)
  have m0: "0 \<le> m" "m < ah" using assms by (simp_all add: m_def)
  have b1: "q * ah \<le> aw" using aw m0 by simp
  have b2: "aw < (q + 1) * ah" using aw m0 by (simp add: distrib_right)
  have b3: "(q - 1) * ah \<le> aw" using b1 assms(4) by (simp add: left_diff_distrib)
  have b4: "aw < (q + 2) * ah" using b2 assms(4) by (simp add: distrib_right)
  show ?thesis
  proof (cases "even q")
    case True
    then show ?thesis using assms r sm b3 b2
      by (simp add: compute_sizes_def)
  next
    case False
    then show ?thesis using assms r sm b1 b4
      by (simp add: compute_sizes_def odd_iff_mod_2_eq_one)
  qed
qed

theorem compute_sizes_filmstrip_witness:
  "\<exists>t'. compute_sizes strip_env strip_table True = Some (t', True) \<and> thumb_size t' = 100
      \<and> thumbs_per_row t' = 1 \<and> odd (rows t') \<and> (rows t' - 2) * 100 \<le> 500 \<and> 500 < rows t' * 100"
  using compute_sizes_filmstrip [of strip_table strip_env 500 100 True]
  by (simp add: strip_env_def strip_table_def)

section \<open>The degenerate viewport\<close>

text \<open>C9, as the claim states it, fails: the layout state is not left as it was. A table that
  has recorded a viewport of 500 by 100 pixels records the height 20 after a full redraw in
  a viewport of 500 by 20 pixels.\<close>

theorem full_redraw_degenerate_counterexample:
  "view_height strip_single = 100
   \<and> map_option view_height
        (dt_thumbtable_full_redraw 0 (strip_env\<lparr>allocation := (500, 20)\<rparr>) strip_single True)
       = Some 20"
  by (simp add: example_defs compute_sizes_def)

text \<open>C9, amended: when the viewport is at most 20 pixels wide or high, the full redraw
  returns a result, and the result is the table as it was with the degenerate viewport size
  recorded in it: the list, every entry, the offset, the thumbnail size, the rows and
  columns and all other fields are unchanged, for either value of \<open>force\<close>.\<close>

theorem full_redraw_degenerate:
  "allocation e = (aw, ah) \<Longrightarrow> aw \<le> 20 \<or> ah \<le> 20 \<Longrightarrow>
   dt_thumbtable_full_redraw n e t force = Some (t\<lparr>view_width := aw, view_height := ah\<rparr>)"
  by (auto simp add: compute_sizes_def)

theorem full_redraw_degenerate_witness:
  "dt_thumbtable_full_redraw 0 (strip_env\<lparr>allocation := (500, 20)\<rparr>) strip_table True
     = Some (strip_table\<lparr>view_width := 500, view_height := 20\<rparr>)"
  using full_redraw_degenerate [of "strip_env\<lparr>allocation := (500, 20)\<rparr>" 500 20 0 strip_table True]
  by (simp add: strip_env_def)

section \<open>The start of the reload in the file manager\<close>

text \<open>The rows of the new list are those of the query, whatever the old list holds.\<close>

lemma add_thumbs_rows:
  "add_thumbs e q pos (nl, t) = (nl', t') \<Longrightarrow>
     map th_rowid nl' = rev (map fst q) @ map th_rowid nl \<and> offset t' = offset t"
proof (induction q arbitrary: pos nl t)
  case Nil
  then show ?case by simp
next
  case (Cons row q)
  obtain nrow nid where row: "row = (nrow, nid)" by (cases row)
  show ?case
  proof (cases "find (\<lambda>th. list_compare_by_imgid th nid = 0) (thumb_list t)")
    case None
    then show ?thesis using Cons.prems Cons.IH unfolding row
      by (auto simp add: new_thumb_def dt_thumbnail_new_def split: if_splits)
  next
    case (Some thumb)
    then show ?thesis using Cons.prems Cons.IH unfolding row
      by (auto simp add: dt_thumbnail_resize_def split: if_splits)
  qed
qed

lemma compute_sizes_keeps:
  "compute_sizes e t force = Some (t1, c) \<Longrightarrow>
     offset t1 = offset t \<and> thumb_list t1 = thumb_list t \<and> heap_next t1 = heap_next t \<and> mode t1 = mode t"
  by (auto simp add: compute_sizes_def Let_def split: prod.splits if_splits)

lemma compute_sizes_filemanager:
  "compute_sizes e t force = Some (t1, True) \<Longrightarrow> mode t = DT_THUMBTABLE_MODE_FILEMANAGER \<Longrightarrow>
     thumbs_per_row t1 = lighttable_zoom e \<and> lighttable_zoom e \<noteq> 0"
  by (auto simp add: compute_sizes_def Let_def split: prod.splits if_splits)

text \<open>C3, as the claim states it, fails: not every full redraw stores the start of the row.
  The table drawn with two thumbnails per row, whose offset has been set to row 2 without a
  redraw, keeps the offset 2 through a full redraw that is not forced, since the sizes have
  not changed; row 2 is the second place of its row.\<close>

theorem full_redraw_offset_counterexample:
  "mode wide_shifted = DT_THUMBTABLE_MODE_FILEMANAGER
   \<and> thumbs_per_row wide_shifted = 2 \<and> offset wide_shifted = 2
   \<and> map_option offset (dt_thumbtable_full_redraw 0 wide_env wide_shifted False) = Some 2"
  by (simp add: wide_shifted_def wide_drawn_eq dt_thumbtable_set_offset_def compute_sizes_def wide_env_def)

text \<open>C3, amended: a full redraw in the file manager that is carried out (the size
  computation reports a change: the viewport is above the threshold, and the redraw is forced
  or the viewport or the zoom has changed), on an offset of at least 1 and with \<open>z \<ge> 1\<close>
  thumbnails per row, first stores in the offset the row \<open>k * z + 1\<close> with
  \<open>k * z + 1 \<le> offset < (k + 1) * z + 1\<close>, the start of the grid row of the old offset; the
  reloaded list holds the rows of the collection from that row on.\<close>

theorem full_redraw_offset_row_start:
  assumes "mode t = DT_THUMBTABLE_MODE_FILEMANAGER" "1 \<le> offset t" "0 < lighttable_zoom e"
    "compute_sizes e t force = Some (t1, True)"
  shows "\<exists>k t2. 0 \<le> k \<and> k * lighttable_zoom e + 1 \<le> offset t
           \<and> offset t < (k + 1) * lighttable_zoom e + 1
           \<and> full_redraw_reload e (t1\<lparr>dragging := False\<rparr>) = Some t2
           \<and> offset t2 = k * lighttable_zoom e + 1
           \<and> map th_rowid (thumb_list t2)
               = map fst (select_from e (k * lighttable_zoom e + 1) (rows t1 * lighttable_zoom e))"
proof -
  define z where "z = lighttable_zoom e"
  define k where "k = (offset t - 1) div z"
  have z: "0 < z" using assms(3) by (simp add: z_def)
  have keep: "offset t1 = offset t" "mode t1 = mode t" using compute_sizes_keeps [OF assms(4)] by simp_all
  have tpr: "thumbs_per_row t1 = z" using compute_sizes_filemanager [OF assms(4) assms(1)] by (simp add: z_def)
  have sd: "(offset t - 1) sdiv z = k" using assms(2) z by (simp add: sdiv_nonneg_pos k_def)
  have k0: "0 \<le> k" using assms(2) z by (simp add: k_def pos_imp_zdiv_nonneg_iff)
  have dm: "offset t - 1 = k * z + (offset t - 1) mod z" by (simp add: k_def)
  have m: "0 \<le> (offset t - 1) mod z" "(offset t - 1) mod z < z" using z by simp_all
  have lo: "k * z + 1 \<le> offset t" using dm m by linarith
  have hi: "offset t < (k + 1) * z + 1" using dm m by (simp add: distrib_right)
  have st: "redraw_start (t1\<lparr>dragging := False\<rparr>)
      = Some (t1\<lparr>dragging := False, offset := k * z + 1\<rparr>, center_offset t1, k * z + 1, 0)"
    using assms(1) keep tpr sd z by (simp add: redraw_start_def Let_def)
  obtain nl t' where at: "add_thumbs e (select_from e (k * z + 1) (rows t1 * z)) (center_offset t1, 0)
      ([], t1\<lparr>dragging := False, offset := k * z + 1\<rparr>) = (nl, t')"
    by (cases "add_thumbs e (select_from e (k * z + 1) (rows t1 * z)) (center_offset t1, 0)
      ([], t1\<lparr>dragging := False, offset := k * z + 1\<rparr>)") auto
  have "map th_rowid (rev nl) = rev (map th_rowid nl)" by (simp add: rev_map)
  then have r: "map th_rowid (rev nl) = map fst (select_from e (k * z + 1) (rows t1 * z))"
    using add_thumbs_rows [OF at] by simp
  have r2: "offset t' = k * z + 1" using add_thumbs_rows [OF at] by simp
  have fr: "full_redraw_reload e (t1\<lparr>dragging := False\<rparr>) = Some (pos_compute_area (t'\<lparr>thumb_list := rev nl\<rparr>))"
    using st at tpr by (simp add: full_redraw_reload_def)
  have "offset (pos_compute_area (t'\<lparr>thumb_list := rev nl\<rparr>)) = k * z + 1"
    "map th_rowid (thumb_list (pos_compute_area (t'\<lparr>thumb_list := rev nl\<rparr>)))
       = map fst (select_from e (k * z + 1) (rows t1 * z))"
    using r r2 by (simp_all add: pos_compute_area_def Let_def)
  then show ?thesis using k0 lo hi fr unfolding z_def by blast
qed

theorem full_redraw_offset_row_start_witness:
  "\<exists>k t2. 0 \<le> k \<and> k * 2 + 1 \<le> (2::int) \<and> (2::int) < (k + 1) * 2 + 1
      \<and> full_redraw_reload wide_env (wide_shifted\<lparr>dragging := False\<rparr>) = Some t2
      \<and> offset t2 = k * 2 + 1
      \<and> map th_rowid (thumb_list t2) = map fst (select_from wide_env (k * 2 + 1) (3 * 2))"
  using full_redraw_offset_row_start [of wide_shifted wide_env True wide_shifted]
  by (simp add: wide_shifted_def wide_drawn_eq dt_thumbtable_set_offset_def compute_sizes_def
      wide_env_def strip_env_def)

section \<open>The loop of the reload keeps what the spec asks for\<close>

lemma find_remove1: "\<not> P x \<Longrightarrow> find P (remove1 x l) = find P l"
  by (induction l) auto

lemma find_Some_P: "find P l = Some x \<Longrightarrow> P x \<and> x \<in> set l"
  by (induction l) (auto split: if_splits)

lemma pos_get_next_cong:
  "mode t' = mode t \<Longrightarrow> thumb_size t' = thumb_size t \<Longrightarrow> view_width t' = view_width t
   \<Longrightarrow> center_offset t' = center_offset t \<Longrightarrow> pos_get_next t' = pos_get_next t"
  by (rule ext) (auto simp add: pos_get_next_def split: prod.splits)

lemma reconciled_transfer:
  assumes "reconciled e t1 pos row th'" "thumb_size t1 = thumb_size t" "heap_next t \<le> heap_next t1"
    "find (\<lambda>th. list_compare_by_imgid th (snd row) = 0) (thumb_list t1)
       = find (\<lambda>th. list_compare_by_imgid th (snd row) = 0) (thumb_list t)"
  shows "reconciled e t pos row th'"
proof (cases "find (\<lambda>th. list_compare_by_imgid th (snd row) = 0) (thumb_list t)")
  case None
  then obtain ref where "heap_next t1 \<le> ref"
    "th' = (dt_thumbnail_new e ref (thumb_size t) (thumb_size t) (snd row) (fst row))\<lparr>th_x := fst pos, th_y := snd pos\<rparr>"
    using assms(1,2,4) unfolding reconciled_def by auto
  then show ?thesis using None assms(3) unfolding reconciled_def
    by (auto intro!: exI [of _ ref])
next
  case (Some th)
  then show ?thesis using assms(1,2,4) unfolding reconciled_def by simp
qed

lemma reconciled_list_transfer:
  assumes "reconciled_list e t1 pos q ents"
    "mode t1 = mode t" "thumb_size t1 = thumb_size t" "view_width t1 = view_width t"
    "center_offset t1 = center_offset t" "heap_next t \<le> heap_next t1"
    "\<forall>row \<in> set q. find (\<lambda>th. list_compare_by_imgid th (snd row) = 0) (thumb_list t1)
                   = find (\<lambda>th. list_compare_by_imgid th (snd row) = 0) (thumb_list t)"
  shows "reconciled_list e t pos q ents"
  using assms(1,7)
proof (induction q arbitrary: pos ents)
  case Nil
  then show ?case by simp
next
  case (Cons row q)
  have g: "pos_get_next t1 = pos_get_next t" using assms(2-5) by (rule pos_get_next_cong)
  from Cons.prems(1) obtain th' r where e: "ents = th' # r" and r1: "reconciled e t1 pos row th'"
    and r2: "reconciled_list e t1 (pos_get_next t pos) q r"
    by (auto simp add: g split: list.splits)
  have "reconciled e t pos row th'"
    using reconciled_transfer [OF r1 assms(3) assms(6)] Cons.prems(2) by simp
  moreover have "reconciled_list e t (pos_get_next t pos) q r"
    using Cons.IH [OF r2] Cons.prems(2) by simp
  ultimately show ?case using e by simp
qed

lemma add_thumbs_reconciled:
  assumes "distinct (map snd q)" "add_thumbs e q pos (nl, t) = (nl', t')"
  shows "\<exists>ents. nl' = rev ents @ nl \<and> reconciled_list e t pos q ents
           \<and> mode t' = mode t \<and> thumb_size t' = thumb_size t \<and> view_width t' = view_width t
           \<and> center_offset t' = center_offset t \<and> offset t' = offset t \<and> heap_next t \<le> heap_next t'
           \<and> thumbs_per_row t' = thumbs_per_row t \<and> rows t' = rows t \<and> view_height t' = view_height t"
  using assms
proof (induction q arbitrary: pos nl t)
  case Nil
  then show ?case by simp
next
  case (Cons row q)
  obtain nrow nid where row: "row = (nrow, nid)" by (cases row)
  let ?P = "\<lambda>th. list_compare_by_imgid th nid = 0"
  have d: "distinct (map snd q)" using Cons.prems(1) by simp
  show ?case
  proof (cases "find ?P (thumb_list t)")
    case None
    define th' where "th' = (dt_thumbnail_new e (heap_next t) (thumb_size t) (thumb_size t) nid nrow)\<lparr>th_x := fst pos, th_y := snd pos\<rparr>"
    define t1 where "t1 = (if nrow = offset t then t\<lparr>heap_next := Suc (heap_next t), offset_imgid := nid\<rparr> else t\<lparr>heap_next := Suc (heap_next t)\<rparr>)"
    have step: "add_thumbs e q (pos_get_next t pos) (th' # nl, t1) = (nl', t')"
      using Cons.prems(2) None unfolding row th'_def t1_def
      by (simp add: new_thumb_def)
    from Cons.IH [OF d step] obtain ents where
      ih: "nl' = rev ents @ th' # nl" "reconciled_list e t1 (pos_get_next t pos) q ents"
      "mode t' = mode t1" "thumb_size t' = thumb_size t1" "view_width t' = view_width t1"
      "center_offset t' = center_offset t1" "offset t' = offset t1" "heap_next t1 \<le> heap_next t'"
      "thumbs_per_row t' = thumbs_per_row t1" "rows t' = rows t1" "view_height t' = view_height t1"
      by blast
    have geo: "mode t1 = mode t" "thumb_size t1 = thumb_size t" "view_width t1 = view_width t"
      "center_offset t1 = center_offset t" "offset t1 = offset t" "heap_next t \<le> heap_next t1"
      "thumb_list t1 = thumb_list t" "thumbs_per_row t1 = thumbs_per_row t" "rows t1 = rows t"
      "view_height t1 = view_height t"
      by (simp_all add: t1_def)
    have tr: "reconciled_list e t (pos_get_next t pos) q ents"
      using reconciled_list_transfer [OF ih(2) geo(1-4) geo(6)] geo(7) by simp
    have r0: "reconciled e t pos row th'"
      using None unfolding row reconciled_def th'_def by (auto intro!: exI [of _ "heap_next t"])
    have "nl' = rev (th' # ents) @ nl \<and> reconciled_list e t pos (row # q) (th' # ents)"
      using ih(1) tr r0 by simp
    moreover have "mode t' = mode t \<and> thumb_size t' = thumb_size t \<and> view_width t' = view_width t
           \<and> center_offset t' = center_offset t \<and> offset t' = offset t \<and> heap_next t \<le> heap_next t'
           \<and> thumbs_per_row t' = thumbs_per_row t \<and> rows t' = rows t \<and> view_height t' = view_height t"
      using ih(3-11) geo by simp
    ultimately show ?thesis by blast
  next
    case (Some thumb)
    define th' where "th' = thumb\<lparr>th_rowid := nrow, th_x := fst pos, th_y := snd pos, th_width := thumb_size t, th_height := thumb_size t\<rparr>"
    define t1 where "t1 = (if nrow = offset t then t\<lparr>thumb_list := remove1 thumb (thumb_list t), offset_imgid := nid\<rparr> else t\<lparr>thumb_list := remove1 thumb (thumb_list t)\<rparr>)"
    have step: "add_thumbs e q (pos_get_next t pos) (th' # nl, t1) = (nl', t')"
      using Cons.prems(2) Some unfolding row th'_def t1_def
      by (simp add: dt_thumbnail_resize_def)
    from Cons.IH [OF d step] obtain ents where
      ih: "nl' = rev ents @ th' # nl" "reconciled_list e t1 (pos_get_next t pos) q ents"
      "mode t' = mode t1" "thumb_size t' = thumb_size t1" "view_width t' = view_width t1"
      "center_offset t' = center_offset t1" "offset t' = offset t1" "heap_next t1 \<le> heap_next t'"
      "thumbs_per_row t' = thumbs_per_row t1" "rows t' = rows t1" "view_height t' = view_height t1"
      by blast
    have geo: "mode t1 = mode t" "thumb_size t1 = thumb_size t" "view_width t1 = view_width t"
      "center_offset t1 = center_offset t" "offset t1 = offset t" "heap_next t \<le> heap_next t1"
      "thumb_list t1 = remove1 thumb (thumb_list t)" "thumbs_per_row t1 = thumbs_per_row t" "rows t1 = rows t"
      "view_height t1 = view_height t"
      by (simp_all add: t1_def)
    have pthumb: "th_imgid thumb = nid" "0 \<le> nid"
      using find_Some_P [OF Some] by (auto simp add: list_compare_by_imgid_def split: if_splits)
    have nomatch: "\<forall>r \<in> set q. \<not> list_compare_by_imgid thumb (snd r) = 0"
      using Cons.prems(1) pthumb unfolding row by (auto simp add: list_compare_by_imgid_def)
    have same: "\<forall>r \<in> set q. find (\<lambda>th. list_compare_by_imgid th (snd r) = 0) (thumb_list t1)
                   = find (\<lambda>th. list_compare_by_imgid th (snd r) = 0) (thumb_list t)"
      using nomatch geo(7) by (simp add: find_remove1)
    have tr: "reconciled_list e t (pos_get_next t pos) q ents"
      using reconciled_list_transfer [OF ih(2) geo(1-4) geo(6) same] .
    have r0: "reconciled e t pos row th'"
      using Some unfolding row reconciled_def th'_def by simp
    have "nl' = rev (th' # ents) @ nl \<and> reconciled_list e t pos (row # q) (th' # ents)"
      using ih(1) tr r0 by simp
    moreover have "mode t' = mode t \<and> thumb_size t' = thumb_size t \<and> view_width t' = view_width t
           \<and> center_offset t' = center_offset t \<and> offset t' = offset t \<and> heap_next t \<le> heap_next t'
           \<and> thumbs_per_row t' = thumbs_per_row t \<and> rows t' = rows t \<and> view_height t' = view_height t"
      using ih(3-11) geo by simp
    ultimately show ?thesis by blast
  qed
qed



lemma rows_from_snd: "map snd (rows_from r l) = l"
  by (induction l arbitrary: r) auto

lemma distinct_select_from:
  "distinct (collected_images e) \<Longrightarrow> distinct (map snd (select_from e off n))"
  by (simp add: select_from_def sql_limit_def collected_rows_def take_map [symmetric]
      distinct_map_filter rows_from_snd)

lemma compute_sizes_scrollbars:
  "compute_sizes e t0 force = Some (t, True) \<Longrightarrow> thumbtable_update_scrollbars t = Some ()"
  by (auto simp add: compute_sizes_def thumbtable_update_scrollbars_def Let_def
      split: prod.splits if_splits)

lemma redraw_start_keeps:
  "redraw_start t = Some (t1, px, off, es) \<Longrightarrow>
     thumb_list t1 = thumb_list t \<and> heap_next t1 = heap_next t \<and> mode t1 = mode t
     \<and> thumb_size t1 = thumb_size t \<and> view_width t1 = view_width t
     \<and> center_offset t1 = center_offset t \<and> rows t1 = rows t \<and> thumbs_per_row t1 = thumbs_per_row t"
  by (auto simp add: redraw_start_def Let_def split: if_splits)

section \<open>Two full redraws in a row\<close>

text \<open>C2 at a failing input: a file manager with one thumbnail per row in a viewport of 100
  by 200 pixels shows the rows 4 to 6 of six images, of which the first is selected. A
  forced full redraw reloads the rows 4 to 6 and scrolls up by three rows to the selected
  image; \<^verbatim>\<open>_thumbs_load_needed\<close> does not load the row that comes to \<open>y = 200\<close>, the height of
  the viewport, so the list holds the rows 1 and 2 and the offset is 1. The second forced
  full redraw, with the same offset, viewport, zoom, collection and selection, reloads from
  row 1 and makes the three rows 1 to 3.\<close>

theorem full_redraw_twice_differs:
  "map th_rowid (thumb_list flush_table) = [4, 5, 6]
   \<and> dt_thumbtable_full_redraw 2 flush_env flush_table True = Some flush_once
   \<and> offset flush_once = 1
   \<and> map th_rowid (thumb_list flush_once) = [1, 2]
   \<and> map th_y (thumb_list flush_once) = [0, 100]
   \<and> map_option offset (dt_thumbtable_full_redraw 2 flush_env flush_once True) = Some 1
   \<and> map_option (map th_rowid \<circ> thumb_list) (dt_thumbtable_full_redraw 2 flush_env flush_once True)
       = Some [1, 2, 3]
   \<and> map_option (map th_y \<circ> thumb_list) (dt_thumbtable_full_redraw 2 flush_env flush_once True)
       = Some [0, 100, 200]"
  by (simp add: flush_once_def flush_env_def flush_table_def grid_defs redraw_defs move_defs
      numeral_2_eq_2 signed_divide_int_def signed_modulo_int_def)

section \<open>The images to act on\<close>

subsection \<open>Answers from the cache and lists computed afresh\<close>

lemmas act_defs = act_env_def act_env_next_def act_vm_def act_vm_filled_def act_empty_cache_def
  dt_act_on_get_images_def cache_update_def test_cache_def get_cache_def set_cache_def
  images_to_act_on_def insert_in_list_def append_if_absent_def

lemma get_images_hit:
  assumes "\<not> force" "cache_ordered (get_cache vm ov) = ordered" "test_cache d (get_cache vm ov) = Some True"
  shows "dt_act_on_get_images d vm ov force ordered = Some (cache_images (get_cache vm ov), vm)"
proof -
  have ok: "cache_ok (get_cache vm ov)" using assms(3) by (auto simp add: test_cache_def split: if_splits)
  have "cache_update d vm ov force ordered = Some (False, vm)"
    using assms by (simp add: cache_update_def Let_def)
  then show ?thesis using ok by (cases ov) (simp_all add: dt_act_on_get_images_def get_cache_def)
qed

lemma get_images_miss:
  assumes "gui d = Some g" "force \<or> cache_ordered (get_cache vm ov) \<noteq> ordered \<or> test_cache d (get_cache vm ov) = Some False"
  shows "\<exists>vm'. dt_act_on_get_images d vm ov force ordered = Some (images_to_act_on d ov ordered, vm')
           \<and> cache_images (get_cache vm' ov) = images_to_act_on d ov ordered
           \<and> cache_ordered (get_cache vm' ov) = ordered"
proof -
  define c' where "c' = (get_cache vm ov)\<lparr>cache_ordered := ordered,
      cache_image_over := mouse_over_id d, cache_images := images_to_act_on d ov ordered,
      cache_images_nb := int (length (images_to_act_on d ov ordered)),
      cache_active_imgs := active_images d, cache_inside_table := ui_mouse_inside g, cache_ok := True\<rparr>"
  have h: "(if \<not> force \<and> cache_ordered (get_cache vm ov) = ordered then test_cache d (get_cache vm ov) else Some False) = Some False"
    using assms(2) by auto
  have cu: "cache_update d vm ov force ordered = Some (True, set_cache vm ov c')"
    using h assms(1) by (simp add: cache_update_def Let_def c'_def)
  have g: "get_cache (set_cache vm ov c') ov = c'" by (simp add: get_cache_def set_cache_def)
  have c: "cache_ok c'" "cache_images c' = images_to_act_on d ov ordered" "cache_ordered c' = ordered"
    by (simp_all add: c'_def)
  have "dt_act_on_get_images d vm ov force ordered = Some (images_to_act_on d ov ordered, set_cache vm ov c')"
    using cu c by (cases ov) (simp_all add: dt_act_on_get_images_def set_cache_def)
  then show ?thesis using g c by auto
qed

lemma test_cache_total: "gui d = Some g \<Longrightarrow> test_cache d c = Some True \<or> test_cache d c = Some False"
  by (auto simp add: test_cache_def)

subsection \<open>What the active images bring\<close>

lemma set_append_if_absent: "set (append_if_absent l i) = insert i (set l)"
  by (auto simp add: append_if_absent_def)

lemma set_foldl_append_if_absent: "set (foldl append_if_absent l xs) = set l \<union> set xs"
  by (induction xs arbitrary: l) (auto simp add: set_append_if_absent)

lemma set_group_query:
  "set (group_query d img_group_id ids) = {i \<in> set ids. (i, img_group_id) \<in> set (main_images d)}"
  by (force simp add: group_query_def)

lemma insert_in_list_visible: "set (insert_in_list d l i True) = insert i (set l)"
  by (simp add: insert_in_list_def set_append_if_absent)

lemma insert_in_list_all:
  "set (insert_in_list d (insert_in_list d l i False) i True) = set l \<union> active_image_brings d i"
proof (cases "image_cache d i")
  case None
  then show ?thesis
    by (simp add: insert_in_list_def active_image_brings_def set_append_if_absent split: option.splits)
next
  case (Some gid)
  show ?thesis
  proof (cases "gui d")
    case None
    then show ?thesis using Some
      by (simp add: insert_in_list_def active_image_brings_def set_append_if_absent)
  next
    case g: (Some g)
    show ?thesis
    proof (cases "selection_collection d")
      case None
      then show ?thesis using Some g
        by (simp add: insert_in_list_def active_image_brings_def set_append_if_absent)
    next
      case ids: (Some ids)
      show ?thesis using Some g ids
        by (auto simp add: insert_in_list_def active_image_brings_def set_append_if_absent
            set_foldl_append_if_absent set_group_query)
    qed
  qed
qed

lemma insert_active_images_all:
  "set (insert_active_images d False ll l) = set l \<union> (\<Union>i \<in> set ll. active_image_brings d i)"
proof (induction ll arbitrary: l)
  case Nil
  then show ?case by simp
next
  case (Cons i ll)
  have "set (insert_active_images d False (i # ll) l)
      = set (insert_in_list d (insert_in_list d l i False) i True) \<union> (\<Union>i \<in> set ll. active_image_brings d i)"
    using Cons.IH by (simp add: Let_def)
  then show ?case by (auto simp add: insert_in_list_all)
qed

text \<open>C6, as the claim states it, fails: a run with \<open>onlyVisible\<close> false that finds its cache
  valid adds nothing for the active images. The cache for all images is filled while image
  1 is active and holds the images 1 and 2 of its group. Then image 3 becomes active, with
  the mouse still inside the table: grouping is on, the group 8 of image 3 is not the
  expanded one, and image 4 is a member of that group in the collection; yet the next run
  returns the images 1 and 2, neither image 3 nor image 4.\<close>

theorem act_on_group_stale_counterexample:
  "map_option fst (dt_act_on_get_images stale_env act_vm False False False) = Some [1, 2]
   \<and> active_images stale_env_next = [3]
   \<and> map_option grouping (gui stale_env_next) = Some True
   \<and> map_option expanded_group_id (gui stale_env_next) = Some (- 1)
   \<and> image_cache stale_env_next 3 = Some 8
   \<and> (4, 8) \<in> set (main_images stale_env_next)
   \<and> selection_collection stale_env_next = Some [1, 2, 3, 4]
   \<and> map_option fst (dt_act_on_get_images stale_env_next stale_vm False False False) = Some [1, 2]"
  by (simp add: stale_env_def stale_env_next_def stale_vm_def act_vm_def act_empty_cache_def
      dt_act_on_get_images_def cache_update_def test_cache_def get_cache_def set_cache_def
      images_to_act_on_def insert_in_list_def append_if_absent_def group_query_def Let_def)

text \<open>C6, amended. With a user interface present, a run of \<^verbatim>\<open>dt_act_on_get_images\<close> with
  \<open>only_visible\<close> false either computes its list afresh or answers from the cache for all
  images. It computes afresh when it is forced, when the cached ordering is not the
  requested one, or when \<^verbatim>\<open>_test_cache\<close> fails; the images of the list it returns are then
  those of the selection together with what each active image brings in the words of the
  spec (\<^const>\<open>active_image_brings\<close>): the image itself, and with it the members of its group
  that match the filter of the collection when grouping is on, the group is not the expanded
  one, the image is known to the image cache and there is a collection. In the other runs
  it returns the cached list and leaves the caches as they are, whatever the active images
  have become.\<close>

theorem act_on_group_expansion:
  assumes "gui d = Some g"
  shows "(force \<or> cache_ordered (act_on_cache_all vm) \<noteq> ordered
            \<or> test_cache d (act_on_cache_all vm) \<noteq> Some True
          \<longrightarrow> map_option fst (dt_act_on_get_images d vm False force ordered)
                = Some (images_to_act_on d False ordered)
              \<and> set (images_to_act_on d False ordered)
                = set (selection_list d False ordered)
                  \<union> (\<Union>i \<in> set (active_images d). active_image_brings d i))
       \<and> (\<not> force \<and> cache_ordered (act_on_cache_all vm) = ordered
            \<and> test_cache d (act_on_cache_all vm) = Some True
          \<longrightarrow> dt_act_on_get_images d vm False force ordered
                = Some (cache_images (act_on_cache_all vm), vm))"
proof (intro conjI impI)
  assume "force \<or> cache_ordered (act_on_cache_all vm) \<noteq> ordered
            \<or> test_cache d (act_on_cache_all vm) \<noteq> Some True"
  then have "force \<or> cache_ordered (get_cache vm False) \<noteq> ordered
               \<or> test_cache d (get_cache vm False) = Some False"
    using test_cache_total [OF assms, of "act_on_cache_all vm"] by (auto simp add: get_cache_def)
  from get_images_miss [OF assms this]
  show "map_option fst (dt_act_on_get_images d vm False force ordered)
          = Some (images_to_act_on d False ordered)"
    by auto
next
  show "set (images_to_act_on d False ordered)
          = set (selection_list d False ordered)
            \<union> (\<Union>i \<in> set (active_images d). active_image_brings d i)"
    by (simp add: images_to_act_on_def insert_active_images_all)
next
  assume "\<not> force \<and> cache_ordered (act_on_cache_all vm) = ordered
            \<and> test_cache d (act_on_cache_all vm) = Some True"
  then show "dt_act_on_get_images d vm False force ordered
               = Some (cache_images (act_on_cache_all vm), vm)"
    using get_images_hit [of force vm False ordered d] by (simp add: get_cache_def)
qed

theorem act_on_group_expansion_witness:
  "map_option fst (dt_act_on_get_images group_env act_vm False False True)
     = Some (images_to_act_on group_env False True)
   \<and> set (images_to_act_on group_env False True) = {3} \<union> {1, 2}
   \<and> dt_act_on_get_images stale_env_next stale_vm False False False
     = Some (cache_images (act_on_cache_all stale_vm), stale_vm)"
  using act_on_group_expansion [of group_env
      "\<lparr>grouping = True, expanded_group_id = - 1, ui_mouse_inside = False\<rparr>" False act_vm True]
    act_on_group_expansion [of stale_env_next
      "\<lparr>grouping = True, expanded_group_id = - 1, ui_mouse_inside = True\<rparr>" False stale_vm False]
  by (auto simp add: group_env_def stale_env_def stale_env_next_def stale_vm_def act_vm_def
      act_empty_cache_def dt_act_on_get_images_def cache_update_def test_cache_def get_cache_def
      set_cache_def images_to_act_on_def insert_in_list_def append_if_absent_def group_query_def
      active_image_brings_def Let_def)

subsection \<open>Answers from the cache\<close>

text \<open>C5, as the claim states it, fails: with the mouse inside the table the active images are
  not compared. The cache filled while image 1 was active answers \<open>[1]\<close> after image 2 has
  become active, although the validity of the claim holds and a recomputation gives \<open>[2]\<close>.\<close>

theorem act_on_cache_counterexample:
  "claimed_valid act_env_next (act_on_cache_visible act_vm_filled)
   \<and> cache_ok (act_on_cache_visible act_vm_filled)
   \<and> map_option fst (dt_act_on_get_images act_env_next act_vm_filled True False False) = Some [1]
   \<and> images_to_act_on act_env_next True False = [2]"
  by (simp add: act_defs claimed_valid_def Let_def)

text \<open>C5, amended: with a user interface present, \<^verbatim>\<open>dt_act_on_get_images\<close> returns the
  cached list, and leaves the caches alone, when it is not forced, the cached ordering is
  the requested one and \<^verbatim>\<open>_test_cache\<close> holds (the cache is marked valid; same hovered image;
  same mouse-inside flag; as many cached as current active images; equal active images, one
  by one, only if the mouse is outside the table). In every other case it returns the list
  computed afresh. The answer is that of a recomputation in every case if the cache was
  filled by a forced query in an environment whose recomputation, for the cached ordering,
  is the present one (selection, active images and grouping as they are now).\<close>

theorem act_on_cache_answers:
  assumes "gui d = Some g"
  shows "(\<not> force \<and> cache_ordered (get_cache vm ov) = ordered \<and> test_cache d (get_cache vm ov) = Some True
            \<longrightarrow> dt_act_on_get_images d vm ov force ordered = Some (cache_images (get_cache vm ov), vm))
         \<and> (force \<or> cache_ordered (get_cache vm ov) \<noteq> ordered \<or> test_cache d (get_cache vm ov) \<noteq> Some True
            \<longrightarrow> map_option fst (dt_act_on_get_images d vm ov force ordered)
                  = Some (images_to_act_on d ov ordered))
         \<and> (dt_act_on_get_images d0 vm0 ov True ordered0 = Some (l0, vm)
              \<and> images_to_act_on d ov ordered0 = images_to_act_on d0 ov ordered0
            \<longrightarrow> map_option fst (dt_act_on_get_images d vm ov force ordered)
                  = Some (images_to_act_on d ov ordered))"
proof (intro conjI impI)
  assume "\<not> force \<and> cache_ordered (get_cache vm ov) = ordered \<and> test_cache d (get_cache vm ov) = Some True"
  then show "dt_act_on_get_images d vm ov force ordered = Some (cache_images (get_cache vm ov), vm)"
    using get_images_hit by blast
next
  assume "force \<or> cache_ordered (get_cache vm ov) \<noteq> ordered \<or> test_cache d (get_cache vm ov) \<noteq> Some True"
  then have "force \<or> cache_ordered (get_cache vm ov) \<noteq> ordered \<or> test_cache d (get_cache vm ov) = Some False"
    using test_cache_total [OF assms] by blast
  from get_images_miss [OF assms this]
  show "map_option fst (dt_act_on_get_images d vm ov force ordered) = Some (images_to_act_on d ov ordered)"
    by auto
next
  assume a: "dt_act_on_get_images d0 vm0 ov True ordered0 = Some (l0, vm)
              \<and> images_to_act_on d ov ordered0 = images_to_act_on d0 ov ordered0"
  then obtain g0 where g0: "gui d0 = Some g0"
    by (cases "gui d0") (auto simp add: dt_act_on_get_images_def cache_update_def Let_def split: option.splits)
  from get_images_miss [OF g0, of True vm0 ov ordered0] a
  have filled: "cache_images (get_cache vm ov) = images_to_act_on d0 ov ordered0"
    "cache_ordered (get_cache vm ov) = ordered0"
    by auto
  show "map_option fst (dt_act_on_get_images d vm ov force ordered) = Some (images_to_act_on d ov ordered)"
  proof (cases "\<not> force \<and> cache_ordered (get_cache vm ov) = ordered \<and> test_cache d (get_cache vm ov) = Some True")
    case True
    then show ?thesis using get_images_hit [of force vm ov ordered d] filled a by simp
  next
    case False
    then have "force \<or> cache_ordered (get_cache vm ov) \<noteq> ordered \<or> test_cache d (get_cache vm ov) = Some False"
      using test_cache_total [OF assms] by blast
    from get_images_miss [OF assms this] show ?thesis by auto
  qed
qed

theorem act_on_cache_answers_witness:
  "dt_act_on_get_images act_env act_vm_filled True False False
      = Some (cache_images (get_cache act_vm_filled True), act_vm_filled)
   \<and> map_option fst (dt_act_on_get_images act_env act_vm_filled True False True)
      = Some (images_to_act_on act_env True True)
   \<and> map_option fst (dt_act_on_get_images act_env act_vm_filled True False False)
      = Some (images_to_act_on act_env True False)"
  using act_on_cache_answers [of act_env "\<lparr>grouping = False, expanded_group_id = - 1, ui_mouse_inside = True\<rparr>"
      False act_vm_filled True False]
    act_on_cache_answers [of act_env "\<lparr>grouping = False, expanded_group_id = - 1, ui_mouse_inside = True\<rparr>"
      False act_vm_filled True True]
    act_on_cache_answers [of act_env "\<lparr>grouping = False, expanded_group_id = - 1, ui_mouse_inside = True\<rparr>"
      False act_vm_filled True False act_env act_vm False "[1]"]
  by (simp add: act_defs Let_def)

section \<open>Group borders in the filmstrip\<close>

lemmas hover_defs = dt_mouse_over_image_callback_def mouse_over_groupid_def mouse_over_reset_def
  set_group_borders_def not_in_group_def g_list_nth_data_def to_guint_def
  dt_thumbnail_set_group_border_def dt_thumbnail_set_mouseover_def

text \<open>C4, as the claim states it, fails: in the filmstrip the borders without a condition
  are the top and the bottom one. Of two neighbours of the hovered group the first gets the
  left, top and bottom border and no right one, the second the right, top and bottom border
  and no left one; the claim gives both the left and the right border, and gives the second
  no top border since its neighbour before is in the group.\<close>

theorem strip_borders_counterexample:
  "mode strip_pair = DT_THUMBTABLE_MODE_FILMSTRIP
   \<and> map th_groupid (thumb_list strip_pair) = [7, 7]
   \<and> map_option (map th_group_borders \<circ> thumb_list) (dt_mouse_over_image_callback hover_env strip_pair)
       = Some [{DT_THUMBNAIL_BORDER_LEFT, DT_THUMBNAIL_BORDER_BOTTOM, DT_THUMBNAIL_BORDER_TOP},
               {DT_THUMBNAIL_BORDER_RIGHT, DT_THUMBNAIL_BORDER_BOTTOM, DT_THUMBNAIL_BORDER_TOP}]"
  by (simp add: hover_env_def strip_pair_def example_defs hover_defs) 

lemma set_group_borders_strip:
  assumes "mode t = DT_THUMBTABLE_MODE_FILMSTRIP" "thumbs_per_row t = 1"
    "int (length (thumb_list t)) < 2147483648" "pos < length (thumb_list t)"
    "th_group_borders th = {}"
  shows "\<exists>th'. set_group_borders t g (int pos) th = Some th'
     \<and> DT_THUMBNAIL_BORDER_TOP \<in> th_group_borders th'
     \<and> DT_THUMBNAIL_BORDER_BOTTOM \<in> th_group_borders th'
     \<and> (DT_THUMBNAIL_BORDER_LEFT \<in> th_group_borders th'
          \<longleftrightarrow> \<not> (0 < pos \<and> th_groupid (thumb_list t ! (pos - 1)) = g))
     \<and> (DT_THUMBNAIL_BORDER_RIGHT \<in> th_group_borders th'
          \<longleftrightarrow> \<not> (pos + 1 < length (thumb_list t) \<and> th_groupid (thumb_list t ! (pos + 1)) = g))"
proof -
  have g1: "to_guint (int pos + 1) = int pos + 1" using assms(3,4) by (simp add: to_guint_def)
  have n1: "nat (int pos - 1) = pos - 1" by simp
  have n2: "nat (int pos + 1) = pos + 1" by simp
  show ?thesis
    using assms g1
    by (cases "pos = 0")
       (auto simp add: set_group_borders_def not_in_group_def g_list_nth_data_def
          dt_thumbnail_set_group_border_def Let_def n1 n2 nat_add_distrib)
qed

lemma group_borders_loop_strip:
  assumes "mode t = DT_THUMBTABLE_MODE_FILMSTRIP" "thumbs_per_row t = 1"
    "int (length (thumb_list t)) < 2147483648"
    "\<forall>th \<in> set (thumb_list t). th_group_borders th = {}"
  shows "l = drop k (thumb_list t) \<Longrightarrow>
    \<exists>l'. group_borders_loop t g (int k) l = Some l' \<and> length l' = length l
      \<and> (\<forall>i < length l.
           (th_groupid (l ! i) = g \<longrightarrow>
              DT_THUMBNAIL_BORDER_TOP \<in> th_group_borders (l' ! i)
              \<and> DT_THUMBNAIL_BORDER_BOTTOM \<in> th_group_borders (l' ! i)
              \<and> (DT_THUMBNAIL_BORDER_LEFT \<in> th_group_borders (l' ! i)
                   \<longleftrightarrow> \<not> (0 < k + i \<and> th_groupid (thumb_list t ! (k + i - 1)) = g))
              \<and> (DT_THUMBNAIL_BORDER_RIGHT \<in> th_group_borders (l' ! i)
                   \<longleftrightarrow> \<not> (k + i + 1 < length (thumb_list t)
                             \<and> th_groupid (thumb_list t ! (k + i + 1)) = g)))
           \<and> (th_groupid (l ! i) \<noteq> g \<longrightarrow> l' ! i = l ! i))"
proof (induction l arbitrary: k)
  case Nil
  then show ?case by simp
next
  case (Cons th l)
  have kl: "k < length (thumb_list t)" using Cons.prems
    by (metis drop_all linorder_not_le list.distinct(1))
  have th: "th = thumb_list t ! k" using Cons.prems kl
    by (metis hd_drop_conv_nth list.sel(1))
  have rest: "l = drop (Suc k) (thumb_list t)" using Cons.prems
    by (metis drop_Suc list.sel(3) tl_drop)
  have b0: "th_group_borders th = {}" using th kl assms(4) by simp
  from Cons.IH [OF rest] obtain l' where
    ih: "group_borders_loop t g (int (Suc k)) l = Some l'" "length l' = length l"
      "\<forall>i < length l.
           (th_groupid (l ! i) = g \<longrightarrow>
              DT_THUMBNAIL_BORDER_TOP \<in> th_group_borders (l' ! i)
              \<and> DT_THUMBNAIL_BORDER_BOTTOM \<in> th_group_borders (l' ! i)
              \<and> (DT_THUMBNAIL_BORDER_LEFT \<in> th_group_borders (l' ! i)
                   \<longleftrightarrow> \<not> (0 < Suc k + i \<and> th_groupid (thumb_list t ! (Suc k + i - 1)) = g))
              \<and> (DT_THUMBNAIL_BORDER_RIGHT \<in> th_group_borders (l' ! i)
                   \<longleftrightarrow> \<not> (Suc k + i + 1 < length (thumb_list t)
                             \<and> th_groupid (thumb_list t ! (Suc k + i + 1)) = g)))
           \<and> (th_groupid (l ! i) \<noteq> g \<longrightarrow> l' ! i = l ! i)"
    by blast
  have ik: "int k + 1 = int (Suc k)" by simp
  from set_group_borders_strip [OF assms(1-3) kl b0, of g] obtain th' where
    sg: "set_group_borders t g (int k) th = Some th'"
      "DT_THUMBNAIL_BORDER_TOP \<in> th_group_borders th'"
      "DT_THUMBNAIL_BORDER_BOTTOM \<in> th_group_borders th'"
      "DT_THUMBNAIL_BORDER_LEFT \<in> th_group_borders th'
          \<longleftrightarrow> \<not> (0 < k \<and> th_groupid (thumb_list t ! (k - 1)) = g)"
      "DT_THUMBNAIL_BORDER_RIGHT \<in> th_group_borders th'
          \<longleftrightarrow> \<not> (k + 1 < length (thumb_list t) \<and> th_groupid (thumb_list t ! (k + 1)) = g)"
    by blast
  define h where "h = (if th_groupid th = g then th' else th)"
  have lp: "group_borders_loop t g (int k) (th # l) = Some (h # l')"
    using sg(1) ih(1) by (simp add: h_def ik)
  have "\<forall>i < length (th # l).
           (th_groupid ((th # l) ! i) = g \<longrightarrow>
              DT_THUMBNAIL_BORDER_TOP \<in> th_group_borders ((h # l') ! i)
              \<and> DT_THUMBNAIL_BORDER_BOTTOM \<in> th_group_borders ((h # l') ! i)
              \<and> (DT_THUMBNAIL_BORDER_LEFT \<in> th_group_borders ((h # l') ! i)
                   \<longleftrightarrow> \<not> (0 < k + i \<and> th_groupid (thumb_list t ! (k + i - 1)) = g))
              \<and> (DT_THUMBNAIL_BORDER_RIGHT \<in> th_group_borders ((h # l') ! i)
                   \<longleftrightarrow> \<not> (k + i + 1 < length (thumb_list t)
                             \<and> th_groupid (thumb_list t ! (k + i + 1)) = g)))
           \<and> (th_groupid ((th # l) ! i) \<noteq> g \<longrightarrow> (h # l') ! i = (th # l) ! i)"
  proof (intro allI impI)
    fix i assume "i < length (th # l)"
    show "(th_groupid ((th # l) ! i) = g \<longrightarrow>
              DT_THUMBNAIL_BORDER_TOP \<in> th_group_borders ((h # l') ! i)
              \<and> DT_THUMBNAIL_BORDER_BOTTOM \<in> th_group_borders ((h # l') ! i)
              \<and> (DT_THUMBNAIL_BORDER_LEFT \<in> th_group_borders ((h # l') ! i)
                   \<longleftrightarrow> \<not> (0 < k + i \<and> th_groupid (thumb_list t ! (k + i - 1)) = g))
              \<and> (DT_THUMBNAIL_BORDER_RIGHT \<in> th_group_borders ((h # l') ! i)
                   \<longleftrightarrow> \<not> (k + i + 1 < length (thumb_list t)
                             \<and> th_groupid (thumb_list t ! (k + i + 1)) = g)))
           \<and> (th_groupid ((th # l) ! i) \<noteq> g \<longrightarrow> (h # l') ! i = (th # l) ! i)"
    proof (cases i)
      case 0
      then show ?thesis using sg(2-5) by (simp add: h_def)
    next
      case (Suc j)
      then have "j < length l" using \<open>i < length (th # l)\<close> by simp
      then show ?thesis using ih(3) Suc by simp
    qed
  qed
  then show ?case using lp ih(2) by simp
qed


lemma mouse_over_reset_keeps:
  "th_groupid (mouse_over_reset imgid th) = th_groupid th"
  "th_group_borders (mouse_over_reset imgid th) = {}"
  "th_mouse_over (mouse_over_reset imgid th) = (th_imgid th = imgid)"
  by (auto simp add: mouse_over_reset_def dt_thumbnail_set_mouseover_def
      dt_thumbnail_set_group_border_def Let_def)

text \<open>C4, amended: in the filmstrip, with its one thumbnail per row, on a change of the
  hovered image whose entry is grouped (the group \<open>g\<close> found by the first loop is positive),
  the callback returns the table with a new list of the same length in which every entry
  of the group has the top and the bottom border, has the left border exactly when the entry
  before it in the list is not of the group or does not exist, and has the right border
  exactly when the entry after it is not of the group or does not exist; the entries of
  other groups have no border.\<close>

theorem mouse_over_strip_borders:
  assumes "mode t = DT_THUMBTABLE_MODE_FILMSTRIP" "thumbs_per_row t = 1"
    "int (length (thumb_list t)) < 2147483648"
    "mouse_over_groupid (hover_id e) (thumb_list t) = g" "0 < g"
  shows "\<exists>l'. dt_mouse_over_image_callback e t = Some (t\<lparr>thumb_list := l'\<rparr>)
     \<and> length l' = length (thumb_list t)
     \<and> (\<forall>pos < length l'.
          (th_groupid (thumb_list t ! pos) = g \<longrightarrow>
             DT_THUMBNAIL_BORDER_TOP \<in> th_group_borders (l' ! pos)
             \<and> DT_THUMBNAIL_BORDER_BOTTOM \<in> th_group_borders (l' ! pos)
             \<and> (DT_THUMBNAIL_BORDER_LEFT \<in> th_group_borders (l' ! pos)
                  \<longleftrightarrow> \<not> (0 < pos \<and> th_groupid (thumb_list t ! (pos - 1)) = g))
             \<and> (DT_THUMBNAIL_BORDER_RIGHT \<in> th_group_borders (l' ! pos)
                  \<longleftrightarrow> \<not> (pos + 1 < length l' \<and> th_groupid (thumb_list t ! (pos + 1)) = g)))
          \<and> (th_groupid (thumb_list t ! pos) \<noteq> g \<longrightarrow> th_group_borders (l' ! pos) = {}))"
proof -
  define L1 where "L1 = map (mouse_over_reset (hover_id e)) (thumb_list t)"
  define t1 where "t1 = t\<lparr>thumb_list := L1\<rparr>"
  have a: "mode t1 = DT_THUMBTABLE_MODE_FILMSTRIP" "thumbs_per_row t1 = 1"
    "int (length (thumb_list t1)) < 2147483648"
    "\<forall>th \<in> set (thumb_list t1). th_group_borders th = {}"
    using assms(1-3) by (auto simp add: t1_def L1_def mouse_over_reset_keeps)
  have len: "length L1 = length (thumb_list t)" by (simp add: L1_def)
  have gid: "th_groupid (L1 ! i) = th_groupid (thumb_list t ! i)" if "i < length (thumb_list t)" for i
    using that by (simp add: L1_def mouse_over_reset_keeps)
  have bor: "th_group_borders (L1 ! i) = {}" if "i < length (thumb_list t)" for i
    using that by (simp add: L1_def mouse_over_reset_keeps)
  from group_borders_loop_strip [OF a, of L1 0 g] obtain l' where
    lp: "group_borders_loop t1 g 0 L1 = Some l'" "length l' = length L1"
      "\<forall>i < length L1.
           (th_groupid (L1 ! i) = g \<longrightarrow>
              DT_THUMBNAIL_BORDER_TOP \<in> th_group_borders (l' ! i)
              \<and> DT_THUMBNAIL_BORDER_BOTTOM \<in> th_group_borders (l' ! i)
              \<and> (DT_THUMBNAIL_BORDER_LEFT \<in> th_group_borders (l' ! i)
                   \<longleftrightarrow> \<not> (0 < 0 + i \<and> th_groupid (thumb_list t1 ! (0 + i - 1)) = g))
              \<and> (DT_THUMBNAIL_BORDER_RIGHT \<in> th_group_borders (l' ! i)
                   \<longleftrightarrow> \<not> (0 + i + 1 < length (thumb_list t1)
                             \<and> th_groupid (thumb_list t1 ! (0 + i + 1)) = g)))
           \<and> (th_groupid (L1 ! i) \<noteq> g \<longrightarrow> l' ! i = L1 ! i)"
    by (auto simp add: t1_def)
  have cb: "dt_mouse_over_image_callback e t = Some (t\<lparr>thumb_list := l'\<rparr>)"
    using assms(4,5) lp(1) by (simp add: dt_mouse_over_image_callback_def Let_def t1_def L1_def)
  have all: "\<forall>pos < length l'.
          (th_groupid (thumb_list t ! pos) = g \<longrightarrow>
             DT_THUMBNAIL_BORDER_TOP \<in> th_group_borders (l' ! pos)
             \<and> DT_THUMBNAIL_BORDER_BOTTOM \<in> th_group_borders (l' ! pos)
             \<and> (DT_THUMBNAIL_BORDER_LEFT \<in> th_group_borders (l' ! pos)
                  \<longleftrightarrow> \<not> (0 < pos \<and> th_groupid (thumb_list t ! (pos - 1)) = g))
             \<and> (DT_THUMBNAIL_BORDER_RIGHT \<in> th_group_borders (l' ! pos)
                  \<longleftrightarrow> \<not> (pos + 1 < length l' \<and> th_groupid (thumb_list t ! (pos + 1)) = g)))
          \<and> (th_groupid (thumb_list t ! pos) \<noteq> g \<longrightarrow> th_group_borders (l' ! pos) = {})"
  proof (intro allI impI)
    fix pos assume p: "pos < length l'"
    then have p1: "pos < length (thumb_list t)" "pos < length L1" using lp(2) len by simp_all
    have prev: "th_groupid (thumb_list t1 ! (pos - 1)) = th_groupid (thumb_list t ! (pos - 1))"
      using p1 gid [of "pos - 1"] by (simp add: t1_def)
    have nxt: "pos + 1 < length (thumb_list t) \<Longrightarrow>
        th_groupid (thumb_list t1 ! (pos + 1)) = th_groupid (thumb_list t ! (pos + 1))"
      using gid [of "pos + 1"] by (simp add: t1_def)
    have l1: "length (thumb_list t1) = length (thumb_list t)" by (simp add: t1_def len)
    show "(th_groupid (thumb_list t ! pos) = g \<longrightarrow>
             DT_THUMBNAIL_BORDER_TOP \<in> th_group_borders (l' ! pos)
             \<and> DT_THUMBNAIL_BORDER_BOTTOM \<in> th_group_borders (l' ! pos)
             \<and> (DT_THUMBNAIL_BORDER_LEFT \<in> th_group_borders (l' ! pos)
                  \<longleftrightarrow> \<not> (0 < pos \<and> th_groupid (thumb_list t ! (pos - 1)) = g))
             \<and> (DT_THUMBNAIL_BORDER_RIGHT \<in> th_group_borders (l' ! pos)
                  \<longleftrightarrow> \<not> (pos + 1 < length l' \<and> th_groupid (thumb_list t ! (pos + 1)) = g)))
          \<and> (th_groupid (thumb_list t ! pos) \<noteq> g \<longrightarrow> th_group_borders (l' ! pos) = {})"
      using lp(3) [rule_format, OF p1(2)] gid [OF p1(1)] bor [OF p1(1)] prev nxt l1 lp(2) len
      by auto
  qed
  have ll: "length l' = length (thumb_list t)" using lp(2) len by simp
  show ?thesis
    by (rule exI [of _ l']) (intro conjI cb ll all)
qed

theorem mouse_over_strip_borders_witness:
  "\<exists>l'. dt_mouse_over_image_callback hover_env strip_pair = Some (strip_pair\<lparr>thumb_list := l'\<rparr>)
     \<and> length l' = length (thumb_list strip_pair)
     \<and> (\<forall>pos < length l'.
          (th_groupid (thumb_list strip_pair ! pos) = 7 \<longrightarrow>
             DT_THUMBNAIL_BORDER_TOP \<in> th_group_borders (l' ! pos)
             \<and> DT_THUMBNAIL_BORDER_BOTTOM \<in> th_group_borders (l' ! pos)
             \<and> (DT_THUMBNAIL_BORDER_LEFT \<in> th_group_borders (l' ! pos)
                  \<longleftrightarrow> \<not> (0 < pos \<and> th_groupid (thumb_list strip_pair ! (pos - 1)) = 7))
             \<and> (DT_THUMBNAIL_BORDER_RIGHT \<in> th_group_borders (l' ! pos)
                  \<longleftrightarrow> \<not> (pos + 1 < length l' \<and> th_groupid (thumb_list strip_pair ! (pos + 1)) = 7)))
          \<and> (th_groupid (thumb_list strip_pair ! pos) \<noteq> 7 \<longrightarrow> th_group_borders (l' ! pos) = {}))"
proof -
  have h1: "mode strip_pair = DT_THUMBTABLE_MODE_FILMSTRIP"
    and h2: "thumbs_per_row strip_pair = 1"
    and h3: "int (length (thumb_list strip_pair)) < 2147483648"
    and h4: "mouse_over_groupid (hover_id hover_env) (thumb_list strip_pair) = 7"
    by (simp_all add: hover_env_def strip_pair_def example_defs mouse_over_groupid_def)
  have h5: "(0::int) < 7" by simp
  show ?thesis by (rule mouse_over_strip_borders [OF h1 h2 h3 h4 h5])
qed


section \<open>The offset is at least 1\<close>

text \<open>The four functions call one another, so the proofs below unfold one of them at a time.\<close>

lemmas table_simps = move.simps dt_thumbtable_full_redraw.simps
  dt_thumbtable_ensure_imgid_visibility.simps filemanager_ensure_rowid_visibility.simps

declare table_simps [simp del]

subsection \<open>The parts that do not call back\<close>

text \<open>Loading entries changes neither the offset nor the mode; the end of \<^verbatim>\<open>_move\<close> and the
  start of the reload compute a new offset that is at least 1 when the old one is.\<close>

lemma load_before_offset: "load_before e q pos tc = (t', c') \<Longrightarrow> offset t' = offset (fst tc) \<and> mode t' = mode (fst tc)"
proof (induction q arbitrary: pos tc)
  case Nil
  then show ?case by simp
next
  case (Cons row q)
  obtain nrow nid where row: "row = (nrow, nid)" by (cases row)
  obtain t c where tc: "tc = (t, c)" by (cases tc)
  show ?case using Cons.prems Cons.IH unfolding row tc
    by (auto simp add: new_thumb_def Let_def split: if_splits)
qed

lemma load_after_offset: "load_after e q pos tc = (t', c') \<Longrightarrow> offset t' = offset (fst tc) \<and> mode t' = mode (fst tc)"
proof (induction q arbitrary: pos tc)
  case Nil
  then show ?case by simp
next
  case (Cons row q)
  obtain nrow nid where row: "row = (nrow, nid)" by (cases row)
  obtain t c where tc: "tc = (t, c)" by (cases tc)
  show ?case using Cons.prems Cons.IH unfolding row tc
    by (auto simp add: new_thumb_def Let_def split: if_splits)
qed

lemma thumbs_load_needed_offset:
  assumes "thumbs_load_needed e t = Some (t', c)"
  shows "offset t' = offset t \<and> mode t' = mode t"
proof (cases "thumb_list t = []")
  case True
  then show ?thesis using assms by (simp add: thumbs_load_needed_def)
next
  case False
  then obtain t1 c1 where s: "load_needed_start e t = Some (t1, c1)" and en: "load_needed_end e (t1, c1) = Some (t', c)"
    using assms by (auto simp add: thumbs_load_needed_def split: option.splits)
  have a: "offset t1 = offset t \<and> mode t1 = mode t"
    using s load_before_offset [of e _ _ "(t, 0)" t1 c1]
    by (auto simp add: load_needed_start_def Let_def split: if_splits)
  have b: "offset t' = offset t1 \<and> mode t' = mode t1"
    using en load_after_offset [of e _ _ "(t1, c1)" t' c]
    by (auto simp add: load_needed_end_def Let_def split: if_splits)
  show ?thesis using a b by simp
qed

lemma move_apply_offset:
  assumes "move_apply e t posx posy = Some (t', b)" "1 \<le> offset t"
  shows "1 \<le> offset t'"
proof -
  from assms(1) obtain t3 loaded where l: "thumbs_load_needed e (move_shift t posx posy) = Some (t3, loaded)"
    by (auto simp add: move_apply_def split: Option.bind_splits)
  obtain t4 removed where r: "thumbs_remove_unneeded t3 = (t4, removed)" by (cases "thumbs_remove_unneeded t3")
  define t5 where "t5 = (if loaded + removed > 0 then pos_compute_area t4 else t4)"
  from assms(1) l r obtain t6 where u: "move_update_offset e t5 posx posy (area_y t) = Some t6" and e6: "t' = t6"
    by (auto simp add: move_apply_def t5_def split: Option.bind_splits)
  have "offset t3 = offset t" using thumbs_load_needed_offset [OF l] by (simp add: move_shift_def)
  moreover have "offset t4 = offset t3" using r by (auto simp add: thumbs_remove_unneeded_def)
  ultimately have "offset t5 = offset t" by (simp add: t5_def pos_compute_area_def Let_def)
  then have "1 \<le> offset t6" using u assms(2)
    by (auto simp add: move_update_offset_def Let_def split: if_splits)
  then show ?thesis using e6 by simp
qed

lemma move_check_offset:
  "move_check e t dx dy clamp = Refused t1 \<Longrightarrow> offset t1 = offset t"
  "move_check e t dx dy clamp = Realign t1 \<Longrightarrow> offset t1 = offset t"
  "move_check e t dx dy clamp = Allowed t1 px py \<Longrightarrow> offset t1 = offset t"
  by (auto simp add: move_check_def Let_def split: if_splits)

lemma full_redraw_reload_offset:
  assumes "full_redraw_reload e t = Some t'" "1 \<le> offset t"
  shows "1 \<le> offset t'"
proof -
  from assms(1) obtain t1 px off es where st: "redraw_start t = Some (t1, px, off, es)"
    by (auto simp add: full_redraw_reload_def split: option.splits)
  obtain nl t2 where at: "add_thumbs e (select_from e off (rows t1 * thumbs_per_row t1 - es)) (px, 0) ([], t1) = (nl, t2)"
    by (cases "add_thumbs e (select_from e off (rows t1 * thumbs_per_row t1 - es)) (px, 0) ([], t1)") auto
  have t': "t' = pos_compute_area (t2\<lparr>thumb_list := rev nl\<rparr>)"
    using assms(1) st at by (simp add: full_redraw_reload_def)
  have o2: "offset t2 = offset t1" using add_thumbs_rows [OF at] by simp
  have o1: "1 \<le> offset t1"
  proof (cases "mode t = DT_THUMBTABLE_MODE_FILEMANAGER")
    case True
    have "0 \<le> ((offset t - 1) sdiv thumbs_per_row t) * thumbs_per_row t"
    proof -
      have "sgn (offset t - 1) * sgn (thumbs_per_row t) * sgn (thumbs_per_row t) \<ge> 0"
        using assms(2) by (simp add: sgn_if)
      have "((offset t - 1) sdiv thumbs_per_row t) * thumbs_per_row t
          = (\<bar>offset t - 1\<bar> div \<bar>thumbs_per_row t\<bar>) * (sgn (offset t - 1) * (sgn (thumbs_per_row t) * thumbs_per_row t))"
        by (simp add: signed_divide_int_def algebra_simps)
      also have "\<dots> = (\<bar>offset t - 1\<bar> div \<bar>thumbs_per_row t\<bar>) * (sgn (offset t - 1) * \<bar>thumbs_per_row t\<bar>)"
        by (simp add: abs_sgn mult.commute)
      also have "\<dots> \<ge> 0" using assms(2) by (simp add: sgn_if pos_imp_zdiv_nonneg_iff zero_le_mult_iff div_int_pos_iff)
      finally show ?thesis .
    qed
    then show ?thesis using st True by (auto simp add: redraw_start_def Let_def split: if_splits)
  next
    case False
    then show ?thesis using st assms(2) by (auto simp add: redraw_start_def Let_def split: if_splits)
  qed
  show ?thesis using t' o2 o1 by (simp add: pos_compute_area_def Let_def)
qed


lemma update_selected_infos_offset: "offset (update_selected_infos e t) = offset t"
  by (simp add: update_selected_infos_def)

subsection \<open>One level of each function\<close>

text \<open>Each of the four functions keeps the offset at 1 or more when the functions that it
  calls do.\<close>

lemma ensure_imgid_step:
  assumes "\<And>t rowid t' b. 1 \<le> offset t \<Longrightarrow> filemanager_ensure_rowid_visibility n e t rowid = Some (t', b)
             \<Longrightarrow> 1 \<le> offset t'"
    and "1 \<le> offset t" "dt_thumbtable_ensure_imgid_visibility n e t imgid = Some (t', b)"
  shows "1 \<le> offset t'"
proof (cases "imgid < 1 \<or> mode t \<noteq> DT_THUMBTABLE_MODE_FILEMANAGER")
  case True
  then have "t' = t" using assms(3)
    by (auto simp add: dt_thumbtable_ensure_imgid_visibility.simps [of n e t imgid] split: if_splits)
  then show ?thesis using assms(2) by simp
next
  case False
  then have "filemanager_ensure_rowid_visibility n e t (thumb_get_rowid e imgid) = Some (t', b)"
    using assms(3) by (simp add: dt_thumbtable_ensure_imgid_visibility.simps [of n e t imgid])
  then show ?thesis using assms(1) [OF assms(2)] by simp
qed

lemma full_redraw_step:
  assumes "\<And>t imgid t' b. 1 \<le> offset t \<Longrightarrow> dt_thumbtable_ensure_imgid_visibility n e t imgid = Some (t', b)
             \<Longrightarrow> 1 \<le> offset t'"
    and "1 \<le> offset t" "dt_thumbtable_full_redraw n e t force = Some t'"
  shows "1 \<le> offset t'"
proof -
  note fr = assms(3) [unfolded dt_thumbtable_full_redraw.simps [of n e t force]]
  show ?thesis
  proof (cases "compute_sizes e t force")
    case None
    then show ?thesis using fr by simp
  next
    case (Some p)
    obtain t1 changed where p: "p = (t1, changed)" by (cases p)
    have cs: "compute_sizes e t force = Some (t1, changed)" using Some p by simp
    have o1: "1 \<le> offset t1" using compute_sizes_keeps [OF cs] assms(2) by simp
    show ?thesis
    proof (cases changed)
      case False
      then show ?thesis using fr cs o1 by simp
    next
      case True
      have sb: "thumbtable_update_scrollbars t1 = Some ()"
        using cs True by (simp add: compute_sizes_scrollbars)
      show ?thesis
      proof (cases "full_redraw_reload e (t1\<lparr>dragging := False\<rparr>)")
        case None
        then show ?thesis using fr cs True sb by simp
      next
        case rl: (Some t2)
        have o2: "1 \<le> offset t2" using full_redraw_reload_offset [OF rl] o1 by simp
        show ?thesis
        proof (cases "selection_first_id e > - 1 \<and> mode t2 = DT_THUMBTABLE_MODE_FILEMANAGER")
          case False
          then have "t' = (if force then t2\<lparr>thumb_list := map (dt_thumbnail_update_selection e) (thumb_list t2)\<rparr> else t2)"
            using fr cs True sb rl by (auto split: if_splits)
          then show ?thesis using o2 by simp
        next
          case sel: True
          show ?thesis
          proof (cases "dt_thumbtable_ensure_imgid_visibility n e t2 (selection_first_id e)")
            case None
            then show ?thesis using fr cs True sb rl sel by simp
          next
            case en: (Some q)
            obtain t3 b3 where q: "q = (t3, b3)" by (cases q)
            have o3: "1 \<le> offset t3" using assms(1) [OF o2, of "selection_first_id e" t3 b3] en q by simp
            have "t' = (if force then (update_selected_infos e t3)\<lparr>thumb_list := map (dt_thumbnail_update_selection e) (thumb_list (update_selected_infos e t3))\<rparr> else update_selected_infos e t3)"
              using fr cs True sb rl sel en q by simp
            then show ?thesis using o3 by (simp add: update_selected_infos_offset)
          qed
        qed
      qed
    qed
  qed
qed

lemma move_step:
  assumes "\<And>t force t'. 1 \<le> offset t \<Longrightarrow> dt_thumbtable_full_redraw n e t force = Some t' \<Longrightarrow> 1 \<le> offset t'"
    and "1 \<le> offset t" "move n e t dx dy clamp = Some (t', b)"
  shows "1 \<le> offset t'"
proof -
  note mv = assms(3) [unfolded move.simps [of n e t dx dy clamp]]
  show ?thesis
  proof (cases "thumb_list t = []")
    case True
    then show ?thesis using assms(2) mv by simp
  next
    case False
    show ?thesis
    proof (cases "move_check e t dx dy clamp")
      case (Refused t1)
      then show ?thesis using assms(2) mv False move_check_offset(1) [OF Refused] by simp
    next
      case (Realign t1)
      show ?thesis
      proof (cases "dt_thumbtable_full_redraw n e t1 True")
        case None
        then show ?thesis using mv False Realign by simp
      next
        case (Some t2)
        then have "t' = t2" using mv False Realign by simp
        then show ?thesis
          using assms(1) [of t1 True t2] assms(2) move_check_offset(2) [OF Realign] Some by simp
      qed
    next
      case (Allowed t1 px py)
      have o1: "1 \<le> offset t1" using assms(2) move_check_offset(3) [OF Allowed] by simp
      show ?thesis
      proof (cases "py = 0 \<and> px = 0")
        case True
        then have "t' = t1" using mv False Allowed by simp
        then show ?thesis using o1 by simp
      next
        case nz: False
        then have "move_apply e t1 px py = Some (t', b)" using mv False Allowed by auto
        then show ?thesis using move_apply_offset [of e t1 px py t' b] o1 by simp
      qed
    qed
  qed
qed

lemma ensure_rowid_zero:
  assumes "1 \<le> offset t" "filemanager_ensure_rowid_visibility 0 e t rowid = Some (t', b)"
  shows "1 \<le> offset t'"
proof -
  note er = assms(2) [unfolded filemanager_ensure_rowid_visibility.simps [of 0 e t rowid]]
  show ?thesis
  proof (cases "thumb_list t = []")
    case True
    then show ?thesis using assms(1) er by simp
  next
    case False
    show ?thesis
    proof (cases "ensure_rowid_step t (if rowid < 1 then 1 else rowid)")
      case None
      then show ?thesis using er False by simp
    next
      case (Some st)
      then show ?thesis using assms(1) er False by (cases st) simp_all
    qed
  qed
qed

lemma ensure_rowid_step:
  assumes "\<And>t dx dy clamp t' b. 1 \<le> offset t \<Longrightarrow> move n e t dx dy clamp = Some (t', b) \<Longrightarrow> 1 \<le> offset t'"
    and "\<And>t rowid t' b. 1 \<le> offset t \<Longrightarrow> filemanager_ensure_rowid_visibility n e t rowid = Some (t', b)
             \<Longrightarrow> 1 \<le> offset t'"
    and "1 \<le> offset t" "filemanager_ensure_rowid_visibility (Suc n) e t rowid = Some (t', b)"
  shows "1 \<le> offset t'"
proof -
  note er = assms(4) [unfolded filemanager_ensure_rowid_visibility.simps [of "Suc n" e t rowid]]
  show ?thesis
  proof (cases "thumb_list t = []")
    case True
    then show ?thesis using assms(3) er by simp
  next
    case False
    show ?thesis
    proof (cases "ensure_rowid_step t (if rowid < 1 then 1 else rowid)")
      case None
      then show ?thesis using er False by simp
    next
      case (Some st)
      show ?thesis
      proof (cases st)
        case Visible
        then show ?thesis using assms(3) er False Some by simp
      next
        case (Scroll d)
        show ?thesis
        proof (cases "move n e t 0 d True")
          case None
          then show ?thesis using er False Some Scroll by simp
        next
          case mvs: (Some q)
          obtain t1 moved where q: "q = (t1, moved)" by (cases q)
          have mv: "move n e t 0 d True = Some (t1, moved)" using mvs q by simp
          have o1: "1 \<le> offset t1" using assms(1) [OF assms(3) mv] .
          show ?thesis
          proof (cases moved)
            case True
            then have "filemanager_ensure_rowid_visibility n e t1 (if rowid < 1 then 1 else rowid) = Some (t', b)"
              using er False Some Scroll mv by simp
            then show ?thesis using assms(2) [OF o1] by simp
          next
            case False2: False
            then show ?thesis using er False Some Scroll mv o1 by simp
          qed
        qed
      qed
    qed
  qed
qed

subsection \<open>All levels\<close>

text \<open>By induction on the bound of the nested calls.\<close>

lemma offset_preserved:
  "(\<forall>t dx dy clamp t' b. 1 \<le> offset t \<longrightarrow> move n e t dx dy clamp = Some (t', b) \<longrightarrow> 1 \<le> offset t')
   \<and> (\<forall>t force t'. 1 \<le> offset t \<longrightarrow> dt_thumbtable_full_redraw n e t force = Some t' \<longrightarrow> 1 \<le> offset t')
   \<and> (\<forall>t rowid t' b. 1 \<le> offset t \<longrightarrow> filemanager_ensure_rowid_visibility n e t rowid = Some (t', b)
          \<longrightarrow> 1 \<le> offset t')"
proof (induction n)
  case 0
  have r: "\<And>t rowid t' b. 1 \<le> offset t \<Longrightarrow> filemanager_ensure_rowid_visibility 0 e t rowid = Some (t', b)
             \<Longrightarrow> 1 \<le> offset t'"
    using ensure_rowid_zero by blast
  have i: "\<And>t imgid t' b. 1 \<le> offset t \<Longrightarrow> dt_thumbtable_ensure_imgid_visibility 0 e t imgid = Some (t', b)
             \<Longrightarrow> 1 \<le> offset t'"
    using ensure_imgid_step [of 0 e] r by blast
  have f: "\<And>t force t'. 1 \<le> offset t \<Longrightarrow> dt_thumbtable_full_redraw 0 e t force = Some t' \<Longrightarrow> 1 \<le> offset t'"
    using full_redraw_step [of 0 e] i by blast
  have m: "\<And>t dx dy clamp t' b. 1 \<le> offset t \<Longrightarrow> move 0 e t dx dy clamp = Some (t', b) \<Longrightarrow> 1 \<le> offset t'"
    using move_step [of 0 e] f by blast
  show ?case using r f m by blast
next
  case (Suc n)
  have r: "\<And>t rowid t' b. 1 \<le> offset t \<Longrightarrow> filemanager_ensure_rowid_visibility (Suc n) e t rowid = Some (t', b)
             \<Longrightarrow> 1 \<le> offset t'"
    using ensure_rowid_step [of n e] Suc.IH by blast
  have i: "\<And>t imgid t' b. 1 \<le> offset t \<Longrightarrow> dt_thumbtable_ensure_imgid_visibility (Suc n) e t imgid = Some (t', b)
             \<Longrightarrow> 1 \<le> offset t'"
    using ensure_imgid_step [of "Suc n" e] r by blast
  have f: "\<And>t force t'. 1 \<le> offset t \<Longrightarrow> dt_thumbtable_full_redraw (Suc n) e t force = Some t' \<Longrightarrow> 1 \<le> offset t'"
    using full_redraw_step [of "Suc n" e] i by blast
  have m: "\<And>t dx dy clamp t' b. 1 \<le> offset t \<Longrightarrow> move (Suc n) e t dx dy clamp = Some (t', b) \<Longrightarrow> 1 \<le> offset t'"
    using move_step [of "Suc n" e] f by blast
  show ?case using r f m by blast
qed


lemma full_redraw_offset:
  "1 \<le> offset t \<Longrightarrow> dt_thumbtable_full_redraw n e t force = Some t' \<Longrightarrow> 1 \<le> offset t'"
  using offset_preserved [of n e] by blast

lemma move_offset:
  "1 \<le> offset t \<Longrightarrow> move n e t dx dy clamp = Some (t', b) \<Longrightarrow> 1 \<le> offset t'"
  using offset_preserved [of n e] by blast

subsection \<open>Setting the offset, and the handler of a changed collection\<close>

lemma set_offset_refused:
  "off < 1 \<or> off = offset t \<Longrightarrow> dt_thumbtable_set_offset n e t off redraw = Some (t, False)"
  by (simp add: dt_thumbtable_set_offset_def)

lemma set_offset_offset:
  assumes "1 \<le> offset t" "dt_thumbtable_set_offset n e t off redraw = Some (t', b)"
  shows "1 \<le> offset t'"
proof (cases "off < 1 \<or> off = offset t")
  case True
  then show ?thesis using assms set_offset_refused [of off t n e redraw] by simp
next
  case False
  show ?thesis
  proof (cases redraw)
    case nr: False
    then show ?thesis using assms(2) False by (auto simp add: dt_thumbtable_set_offset_def)
  next
    case True
    show ?thesis
    proof (cases "dt_thumbtable_full_redraw n e (t\<lparr>offset := off\<rparr>) True")
      case None
      then show ?thesis using assms(2) False True by (simp add: dt_thumbtable_set_offset_def)
    next
      case (Some t1)
      then have "t' = t1" using assms(2) False True by (simp add: dt_thumbtable_set_offset_def)
      then show ?thesis using full_redraw_offset [of "t\<lparr>offset := off\<rparr>" n e True t1] Some False
        by simp
    qed
  qed
qed

lemma collection_changed_offset:
  assumes "dt_collection_changed_callback n e t query_change imgs next_id = Some (t', h)"
  shows "1 \<le> offset t'"
proof (cases "query_change = DT_COLLECTION_CHANGE_RELOAD")
  case False
  then obtain t1 where
    "dt_thumbtable_full_redraw n e (t\<lparr>offset := 1, offset_imgid := thumb_get_imgid e 1\<rparr>) True = Some t1"
    "t' = t1"
    using assms by (auto simp add: dt_collection_changed_callback_def split: Option.bind_splits)
  then show ?thesis
    using full_redraw_offset [of "t\<lparr>offset := 1, offset_imgid := thumb_get_imgid e 1\<rparr>" n e True t1]
    by simp
next
  case True
  define old_offset where "old_offset =
    (if mode t = DT_THUMBTABLE_MODE_FILMSTRIP \<and> selection_first_id e > - 1
        \<and> selection_first_id e \<noteq> offset_imgid t then offset_imgid t else - 1)"
  from assms True obtain t1 t2 t3 where
    t2: "dt_thumbtable_full_redraw n e
           (t1\<lparr>offset_imgid := (if fst (changed_new_offset e t1 imgs next_id) \<ge> 1
                                 then snd (changed_new_offset e t1 imgs next_id)
                                 else thumb_get_imgid e 1),
               offset := max 1 (fst (changed_new_offset e t1 imgs next_id))\<rparr>) True = Some t2"
    and t3: "(if old_offset > 0 \<and> old_offset \<noteq> offset t2 \<and> thumb_get_rowid e old_offset > 0
              then dt_thumbtable_full_redraw n e
                     (t2\<lparr>offset := thumb_get_rowid e old_offset, offset_imgid := old_offset\<rparr>) True
              else Some t2) = Some t3"
    and t': "t' = t3"
    unfolding dt_collection_changed_callback_def old_offset_def Let_def
    by (simp split: Option.bind_splits)
  have o2: "1 \<le> offset t2" using full_redraw_offset [OF _ t2] by simp
  have "1 \<le> offset t3"
  proof (cases "old_offset > 0 \<and> old_offset \<noteq> offset t2 \<and> thumb_get_rowid e old_offset > 0")
    case c: True
    then have r3: "dt_thumbtable_full_redraw n e
                 (t2\<lparr>offset := thumb_get_rowid e old_offset, offset_imgid := old_offset\<rparr>) True = Some t3"
      using t3 by simp
    show ?thesis using full_redraw_offset [OF _ r3] c by simp
  next
    case False
    then show ?thesis using t3 o2 by auto
  qed
  then show ?thesis using t' by simp
qed

text \<open>C10: the offset of a table is at least 1 in every state that the four operations
  reach from a new table. \<^verbatim>\<open>dt_thumbtable_new\<close> makes a table whose offset is at least 1,
  whatever the stored position. When the offset is at least 1, it still is in the table
  that \<^verbatim>\<open>_move\<close>, \<^verbatim>\<open>dt_thumbtable_set_offset\<close> or \<^verbatim>\<open>dt_thumbtable_full_redraw\<close> returns. The
  table that \<^verbatim>\<open>_dt_collection_changed_callback\<close> returns has an offset of at least 1 whatever
  the offset was. \<^verbatim>\<open>dt_thumbtable_set_offset\<close> with a requested offset below 1, or equal to the
  offset of the table, returns \<^verbatim>\<open>FALSE\<close> and leaves the whole table as it was. Inside the
  handler the offset is for a moment the row of the first selected image, which is \<open>-1\<close>
  when that image is not in the collection; the handler then stores \<^verbatim>\<open>MAX(1, nrow)\<close>, and
  later only a row that is greater than 0.\<close>

theorem offset_at_least_one:
  "(1 \<le> offset t \<longrightarrow> (\<forall>t' b. move n e t dx dy clamp = Some (t', b) \<longrightarrow> 1 \<le> offset t'))
   \<and> (1 \<le> offset t \<longrightarrow>
        (\<forall>t' b. dt_thumbtable_set_offset n e t off redraw = Some (t', b) \<longrightarrow> 1 \<le> offset t'))
   \<and> (1 \<le> offset t \<longrightarrow>
        (\<forall>t'. dt_thumbtable_full_redraw n e t force = Some t' \<longrightarrow> 1 \<le> offset t'))
   \<and> (\<forall>t' h. dt_collection_changed_callback n e t query_change imgs next_id = Some (t', h)
          \<longrightarrow> 1 \<le> offset t')
   \<and> (off' < 1 \<or> off' = offset t \<longrightarrow> dt_thumbtable_set_offset n e t off' redraw = Some (t, False))
   \<and> 1 \<le> offset (dt_thumbtable_new pos)"
proof (intro conjI impI allI)
  fix t' b
  assume "1 \<le> offset t" "move n e t dx dy clamp = Some (t', b)"
  then show "1 \<le> offset t'" by (rule move_offset)
next
  fix t' b
  assume "1 \<le> offset t" "dt_thumbtable_set_offset n e t off redraw = Some (t', b)"
  then show "1 \<le> offset t'" by (rule set_offset_offset)
next
  fix t'
  assume "1 \<le> offset t" "dt_thumbtable_full_redraw n e t force = Some t'"
  then show "1 \<le> offset t'" by (rule full_redraw_offset)
next
  fix t' h
  assume "dt_collection_changed_callback n e t query_change imgs next_id = Some (t', h)"
  then show "1 \<le> offset t'" by (rule collection_changed_offset)
next
  assume "off' < 1 \<or> off' = offset t"
  then show "dt_thumbtable_set_offset n e t off' redraw = Some (t, False)" by (rule set_offset_refused)
next
  show "1 \<le> offset (dt_thumbtable_new pos)" by (simp add: dt_thumbtable_new_def)
qed


theorem offset_at_least_one_witness:
  "1 \<le> offset strip_single
   \<and> (\<exists>t' b. move 0 strip_env strip_single (- 300) 0 True = Some (t', b) \<and> 1 \<le> offset t')
   \<and> (\<exists>t' b. dt_thumbtable_set_offset 0 strip_env strip_single 3 True = Some (t', b)
         \<and> 1 \<le> offset t')
   \<and> (\<exists>t'. dt_thumbtable_full_redraw 0 strip_env strip_single True = Some t' \<and> 1 \<le> offset t')
   \<and> (\<exists>t' h. dt_collection_changed_callback 0 strip_env strip_single DT_COLLECTION_CHANGE_RELOAD
                 [] 0 = Some (t', h) \<and> 1 \<le> offset t')
   \<and> dt_thumbtable_set_offset 0 strip_env strip_single 0 True = Some (strip_single, False)
   \<and> 1 \<le> offset (dt_thumbtable_new 0)"
proof -
  have o: "1 \<le> offset strip_single" "(0::int) < 1" by (simp_all add: example_defs)
  have m: "move 0 strip_env strip_single (- 300) 0 True \<noteq> None"
    by (simp add: table_simps example_defs move_defs signed_divide_int_def signed_modulo_int_def)
  have f: "dt_thumbtable_full_redraw 0 strip_env strip_single True \<noteq> None"
    by (simp add: table_simps example_defs redraw_defs move_defs signed_divide_int_def
        signed_modulo_int_def)
  have s: "dt_thumbtable_set_offset 0 strip_env strip_single 3 True \<noteq> None"
    by (simp add: dt_thumbtable_set_offset_def table_simps example_defs redraw_defs move_defs
        signed_divide_int_def signed_modulo_int_def)
  have c: "dt_collection_changed_callback 0 strip_env strip_single DT_COLLECTION_CHANGE_RELOAD [] 0
             \<noteq> None"
    by (simp add: dt_collection_changed_callback_def changed_new_offset_def table_simps
        example_defs redraw_defs move_defs signed_divide_int_def signed_modulo_int_def)
  note th = offset_at_least_one [where t = strip_single and n = 0 and e = strip_env
      and dx = "- 300" and dy = 0 and clamp = True and off = 3 and redraw = True and force = True
      and query_change = DT_COLLECTION_CHANGE_RELOAD and imgs = "[]" and next_id = 0
      and off' = 0 and pos = 0]
  show ?thesis using th o m f s c by auto
qed

section \<open>Reuse of the entries in the full redraw\<close>

subsection \<open>Addresses, and the entries that are left\<close>

text \<open>The loop of the reload makes no object twice: the addresses of the new list and of
  what is left of the old list stay distinct and below the next free address. What is left
  of the old list are the entries that no row of the query has claimed.\<close>

lemma map_remove1_distinct:
  "distinct (map f l) \<Longrightarrow> x \<in> set l \<Longrightarrow> map f (remove1 x l) = remove1 (f x) (map f l)"
proof (induction l)
  case Nil
  then show ?case by simp
next
  case (Cons a l)
  show ?case
  proof (cases "a = x")
    case True
    then show ?thesis by simp
  next
    case False
    then have m: "x \<in> set l" using Cons.prems by simp
    have "f a \<noteq> f x" using Cons.prems(1) m by auto
    then show ?thesis using Cons.IH Cons.prems(1) m False by simp
  qed
qed

lemma add_thumbs_refs:
  assumes "distinct (map th_ref (nl @ thumb_list t))"
    "\<forall>th \<in> set (nl @ thumb_list t). th_ref th < heap_next t"
    "add_thumbs e q pos (nl, t) = (nl', t')"
  shows "distinct (map th_ref (nl' @ thumb_list t'))
       \<and> (\<forall>th \<in> set (nl' @ thumb_list t'). th_ref th < heap_next t')"
  using assms
proof (induction q arbitrary: pos nl t)
  case Nil
  then show ?case by simp
next
  case (Cons row q)
  obtain nrow nid where row: "row = (nrow, nid)" by (cases row)
  let ?P = "\<lambda>th. list_compare_by_imgid th nid = 0"
  show ?case
  proof (cases "find ?P (thumb_list t)")
    case None
    define th' where "th' = (dt_thumbnail_new e (heap_next t) (thumb_size t) (thumb_size t) nid nrow)\<lparr>th_x := fst pos, th_y := snd pos\<rparr>"
    define t1 where "t1 = (if nrow = offset t then t\<lparr>heap_next := Suc (heap_next t), offset_imgid := nid\<rparr> else t\<lparr>heap_next := Suc (heap_next t)\<rparr>)"
    have step: "add_thumbs e q (pos_get_next t pos) (th' # nl, t1) = (nl', t')"
      using Cons.prems(3) None unfolding row th'_def t1_def
      by (simp add: new_thumb_def)
    have f: "thumb_list t1 = thumb_list t" "heap_next t1 = Suc (heap_next t)" "th_ref th' = heap_next t"
      by (simp_all add: t1_def th'_def dt_thumbnail_new_def)
    have d: "distinct (map th_ref ((th' # nl) @ thumb_list t1))"
      using Cons.prems(1,2) f by auto
    have b: "\<forall>th \<in> set ((th' # nl) @ thumb_list t1). th_ref th < heap_next t1"
      using Cons.prems(2) f by (auto simp add: less_Suc_eq)
    show ?thesis using Cons.IH [OF d b step] .
  next
    case (Some thumb)
    define th' where "th' = thumb\<lparr>th_rowid := nrow, th_x := fst pos, th_y := snd pos, th_width := thumb_size t, th_height := thumb_size t\<rparr>"
    define t1 where "t1 = (if nrow = offset t then t\<lparr>thumb_list := remove1 thumb (thumb_list t), offset_imgid := nid\<rparr> else t\<lparr>thumb_list := remove1 thumb (thumb_list t)\<rparr>)"
    have step: "add_thumbs e q (pos_get_next t pos) (th' # nl, t1) = (nl', t')"
      using Cons.prems(3) Some unfolding row th'_def t1_def
      by (simp add: dt_thumbnail_resize_def)
    have m: "thumb \<in> set (thumb_list t)" using find_Some_P [OF Some] by simp
    have f: "thumb_list t1 = remove1 thumb (thumb_list t)" "heap_next t1 = heap_next t"
      "th_ref th' = th_ref thumb"
      by (simp_all add: t1_def th'_def)
    have dl: "distinct (map th_ref (thumb_list t))" using Cons.prems(1) by simp
    have mr: "map th_ref (remove1 thumb (thumb_list t)) = remove1 (th_ref thumb) (map th_ref (thumb_list t))"
      using map_remove1_distinct [OF dl m] .
    have d: "distinct (map th_ref ((th' # nl) @ thumb_list t1))"
      using Cons.prems(1) m unfolding f(1) by (auto simp add: f(3) mr)
    have b: "\<forall>th \<in> set ((th' # nl) @ thumb_list t1). th_ref th < heap_next t1"
      using Cons.prems(2) m unfolding f(1,2) by (auto simp add: f(3) dest: notin_set_remove1)
    show ?thesis using Cons.IH [OF d b step] .
  qed
qed

lemma add_thumbs_leftover:
  assumes "distinct (map snd q)" "distinct (thumb_list t)" "add_thumbs e q pos (nl, t) = (nl', t')"
  shows "thumb_list t'
         = filter (\<lambda>th. \<forall>row \<in> set q. find (\<lambda>th. list_compare_by_imgid th (snd row) = 0) (thumb_list t)
                                          \<noteq> Some th) (thumb_list t)"
  using assms
proof (induction q arbitrary: pos nl t)
  case Nil
  then show ?case by simp
next
  case (Cons row q)
  obtain nrow nid where row: "row = (nrow, nid)" by (cases row)
  let ?P = "\<lambda>th. list_compare_by_imgid th nid = 0"
  have dq: "distinct (map snd q)" using Cons.prems(1) by simp
  show ?case
  proof (cases "find ?P (thumb_list t)")
    case None
    define th' where "th' = (dt_thumbnail_new e (heap_next t) (thumb_size t) (thumb_size t) nid nrow)\<lparr>th_x := fst pos, th_y := snd pos\<rparr>"
    define t1 where "t1 = (if nrow = offset t then t\<lparr>heap_next := Suc (heap_next t), offset_imgid := nid\<rparr> else t\<lparr>heap_next := Suc (heap_next t)\<rparr>)"
    have step: "add_thumbs e q (pos_get_next t pos) (th' # nl, t1) = (nl', t')"
      using Cons.prems(3) None unfolding row th'_def t1_def
      by (simp add: new_thumb_def)
    have f: "thumb_list t1 = thumb_list t" by (simp add: t1_def)
    have d1: "distinct (thumb_list t1)" using Cons.prems(2) f by simp
    show ?thesis using Cons.IH [OF dq d1 step] None unfolding f row by simp
  next
    case (Some thumb)
    define th' where "th' = thumb\<lparr>th_rowid := nrow, th_x := fst pos, th_y := snd pos, th_width := thumb_size t, th_height := thumb_size t\<rparr>"
    define t1 where "t1 = (if nrow = offset t then t\<lparr>thumb_list := remove1 thumb (thumb_list t), offset_imgid := nid\<rparr> else t\<lparr>thumb_list := remove1 thumb (thumb_list t)\<rparr>)"
    have step: "add_thumbs e q (pos_get_next t pos) (th' # nl, t1) = (nl', t')"
      using Cons.prems(3) Some unfolding row th'_def t1_def
      by (simp add: dt_thumbnail_resize_def)
    have f: "thumb_list t1 = remove1 thumb (thumb_list t)" by (simp add: t1_def)
    have d1: "distinct (thumb_list t1)" using Cons.prems(2) f by simp
    have pthumb: "th_imgid thumb = nid" "0 \<le> nid"
      using find_Some_P [OF Some] by (auto simp add: list_compare_by_imgid_def split: if_splits)
    have same: "\<forall>r \<in> set q. find (\<lambda>th. list_compare_by_imgid th (snd r) = 0) (remove1 thumb (thumb_list t))
                   = find (\<lambda>th. list_compare_by_imgid th (snd r) = 0) (thumb_list t)"
    proof
      fix r assume "r \<in> set q"
      then have "snd r \<noteq> nid" using Cons.prems(1) unfolding row by auto
      then have "\<not> list_compare_by_imgid thumb (snd r) = 0"
        using pthumb by (auto simp add: list_compare_by_imgid_def)
      then show "find (\<lambda>th. list_compare_by_imgid th (snd r) = 0) (remove1 thumb (thumb_list t))
                   = find (\<lambda>th. list_compare_by_imgid th (snd r) = 0) (thumb_list t)"
        by (rule find_remove1)
    qed
    have rm: "remove1 thumb (thumb_list t) = filter (\<lambda>th. th \<noteq> thumb) (thumb_list t)"
      using Cons.prems(2) by (simp add: distinct_remove1_removeAll removeAll_filter_not_eq) metis
    have "thumb_list t'
         = filter (\<lambda>th. \<forall>r \<in> set q. find (\<lambda>th. list_compare_by_imgid th (snd r) = 0) (thumb_list t)
                                          \<noteq> Some th) (remove1 thumb (thumb_list t))"
      using Cons.IH [OF dq d1 step] same unfolding f by (simp cong: filter_cong)
    then show ?thesis using Some unfolding row rm by (auto intro: filter_cong)
  qed
qed


lemma reconciled_list_refs:
  "reconciled_list e t pos q ents \<Longrightarrow> th' \<in> set ents \<Longrightarrow>
     (\<exists>th \<in> set (thumb_list t). th_ref th' = th_ref th \<and> th_imgid th' = th_imgid th)
     \<or> heap_next t \<le> th_ref th'"
proof (induction q arbitrary: pos ents)
  case Nil
  then show ?case by simp
next
  case (Cons row q)
  from Cons.prems(1) obtain a r where e: "ents = a # r" and r1: "reconciled e t pos row a"
    and r2: "reconciled_list e t (pos_get_next t pos) q r"
    by (auto split: list.splits)
  show ?case
  proof (cases "th' = a")
    case True
    show ?thesis
    proof (cases "find (\<lambda>th. list_compare_by_imgid th (snd row) = 0) (thumb_list t)")
      case None
      then show ?thesis using r1 True by (auto simp add: reconciled_def dt_thumbnail_new_def)
    next
      case (Some th)
      then have "th \<in> set (thumb_list t)" using find_Some_P [OF Some] by simp
      moreover have "th_ref a = th_ref th \<and> th_imgid a = th_imgid th"
        using r1 Some by (simp add: reconciled_def)
      ultimately show ?thesis using True by blast
    qed
  next
    case False
    then have "th' \<in> set r" using Cons.prems(2) e by simp
    then show ?thesis using Cons.IH [OF r2] by simp
  qed
qed

lemma ensure_visible_no_move:
  assumes "mode t = DT_THUMBTABLE_MODE_FILEMANAGER"
    "imgid < 1 \<or> thumb_list t = []
       \<or> ensure_rowid_step t (if thumb_get_rowid e imgid < 1 then 1 else thumb_get_rowid e imgid)
          = Some Visible"
  shows "map_option fst (dt_thumbtable_ensure_imgid_visibility n e t imgid) = Some t"
  using assms
  by (auto simp add: dt_thumbtable_ensure_imgid_visibility.simps [of n e t imgid]
      filemanager_ensure_rowid_visibility.simps [of n e t "thumb_get_rowid e imgid"])

subsection \<open>The claim\<close>

text \<open>C1, as the claim states it, fails for the full redraw as a whole, since the file manager
  scrolls to the first selected image after the reload. In the first table the images 14,
  15 and 16 are shown and are the rows of the range of the reload, yet none of them is in the
  list after the redraw. In the second table the images 11, 12 and 13 are shown before the
  redraw, at the addresses 0, 1 and 2, and after it, at the addresses 8, 7 and 6: they have
  been destroyed by the reload and made again by the scroll.\<close>

theorem full_redraw_reuse_counterexample:
  "map th_imgid (thumb_list grid_table) = [14, 15, 16]
   \<and> map snd (select_from grid_env (offset grid_table) (rows grid_table * thumbs_per_row grid_table))
       = [14, 15, 16]
   \<and> map_option (map th_imgid \<circ> thumb_list) (dt_thumbtable_full_redraw 2 grid_env grid_table True)
       = Some [11, 12, 13]
   \<and> map th_imgid (thumb_list grid_table_top) = [11, 12, 13]
   \<and> map th_ref (thumb_list grid_table_top) = [0, 1, 2]
   \<and> map_option (map th_imgid \<circ> thumb_list) (dt_thumbtable_full_redraw 2 grid_env grid_table_top True)
       = Some [11, 12, 13]
   \<and> map_option (map th_ref \<circ> thumb_list) (dt_thumbtable_full_redraw 2 grid_env grid_table_top True)
       = Some [8, 7, 6]"
  by (simp add: table_simps grid_defs redraw_defs move_defs numeral_2_eq_2
      signed_divide_int_def signed_modulo_int_def)

text \<open>C1, amended. A full redraw is carried out when the size computation reports a change.
  Let the collection hold no image twice, and let the entries of the table be distinct
  objects at addresses below the next free one. Then the reload returns a table whose list
  is the reconciliation of the old list with the rows of the query, in the sense of
  \<^const>\<open>reconciled_list\<close>: for each row, in order, the first old entry with that image id (a
  negative id never matches) is kept as the same object, with row number, position and size
  updated in place; a row without such an entry gets a new object, at an address that no
  old entry has. Every entry of the new list is an old object that shows its old image, or
  is at such a new address. No object is in the new list twice. The entries that the reload destroys
  are the old entries that no row of the query claims, and none of them is in the new list.
  This table is the result of the full redraw, with the selection flags read again when the
  redraw is forced, outside the file manager and in the file manager when nothing is
  selected. It is also the result, with the infos of the selected entries read again, in
  the file manager with a selection when no scroll is needed: the first selected image has
  no valid id, or the new list is empty, or the row of the image (row 1 when the image is
  not in the collection) is between the first entry and the last fully visible one.\<close>

theorem full_redraw_reuses_entries:
  assumes "distinct (collected_images e)"
    and "distinct (map th_ref (thumb_list t0))"
    and "\<forall>th \<in> set (thumb_list t0). th_ref th < heap_next t0"
    and "compute_sizes e t0 force = Some (t, True)"
    and "redraw_start (t\<lparr>dragging := False\<rparr>) = Some (t1, px, off, es)"
  shows "\<exists>t' dl. full_redraw_reload e (t\<lparr>dragging := False\<rparr>) = Some t'
           \<and> thumb_list t = thumb_list t0 \<and> heap_next t = heap_next t0
           \<and> reconciled_list e t (px, 0)
                (select_from e off (rows t * thumbs_per_row t - es)) (thumb_list t')
           \<and> full_redraw_destroyed e (t\<lparr>dragging := False\<rparr>) = Some dl
           \<and> dl = filter (\<lambda>th. \<forall>row \<in> set (select_from e off (rows t * thumbs_per_row t - es)).
                             find (\<lambda>th. list_compare_by_imgid th (snd row) = 0) (thumb_list t)
                               \<noteq> Some th) (thumb_list t)
           \<and> (\<forall>th' \<in> set (thumb_list t').
                 (\<exists>th \<in> set (thumb_list t0). th_ref th' = th_ref th \<and> th_imgid th' = th_imgid th)
                 \<or> (heap_next t0 \<le> th_ref th' \<and> th_ref th' \<notin> th_ref ` set (thumb_list t0)))
           \<and> distinct (map th_ref (thumb_list t' @ dl))
           \<and> (\<forall>th \<in> set (thumb_list t' @ dl). th_ref th < heap_next t')
           \<and> (mode t \<noteq> DT_THUMBTABLE_MODE_FILEMANAGER \<or> selection_first_id e \<le> - 1 \<longrightarrow>
                dt_thumbtable_full_redraw n e t0 force
                  = Some (if force
                          then t'\<lparr>thumb_list := map (dt_thumbnail_update_selection e) (thumb_list t')\<rparr>
                          else t'))
           \<and> (mode t = DT_THUMBTABLE_MODE_FILEMANAGER \<and> - 1 < selection_first_id e
                \<and> (selection_first_id e < 1 \<or> thumb_list t' = []
                    \<or> ensure_rowid_step t'
                         (if thumb_get_rowid e (selection_first_id e) < 1 then 1
                          else thumb_get_rowid e (selection_first_id e)) = Some Visible) \<longrightarrow>
                dt_thumbtable_full_redraw n e t0 force
                  = Some (if force
                          then (update_selected_infos e t')
                                 \<lparr>thumb_list := map (dt_thumbnail_update_selection e)
                                                   (thumb_list (update_selected_infos e t'))\<rparr>
                          else update_selected_infos e t'))"
proof -
  let ?q = "select_from e off (rows t * thumbs_per_row t - es)"
  let ?td = "t\<lparr>dragging := False\<rparr>"
  have k0: "thumb_list t = thumb_list t0" "heap_next t = heap_next t0" "mode t = mode t0"
    using compute_sizes_keeps [OF assms(4)] by simp_all
  have k1: "thumb_list t1 = thumb_list t" "heap_next t1 = heap_next t" "mode t1 = mode t"
    "thumb_size t1 = thumb_size t" "view_width t1 = view_width t" "center_offset t1 = center_offset t"
    "rows t1 = rows t" "thumbs_per_row t1 = thumbs_per_row t"
    using redraw_start_keeps [OF assms(5)] by simp_all
  obtain nl t2 where at: "add_thumbs e ?q (px, 0) ([], t1) = (nl, t2)"
    by (cases "add_thumbs e ?q (px, 0) ([], t1)") auto
  from add_thumbs_reconciled [OF distinct_select_from [OF assms(1)] at]
  obtain ents where en: "nl = rev ents" "reconciled_list e t1 (px, 0) ?q ents" "mode t2 = mode t1"
    by auto
  let ?t' = "pos_compute_area (t2\<lparr>thumb_list := rev nl\<rparr>)"
  let ?dl = "thumb_list t2"
  have fr: "full_redraw_reload e ?td = Some ?t'"
    using assms(5) at k1 by (simp add: full_redraw_reload_def)
  have fd: "full_redraw_destroyed e ?td = Some ?dl"
    using assms(5) at k1 by (simp add: full_redraw_destroyed_def)
  have l: "thumb_list ?t' = ents" "mode ?t' = mode t" "heap_next ?t' = heap_next t2"
    using en k1 by (simp_all add: pos_compute_area_def Let_def)
  have r: "reconciled_list e t (px, 0) ?q ents"
    using reconciled_list_transfer [OF en(2), of t] k1 by simp
  have d1: "distinct (map th_ref ([] @ thumb_list t1))" using assms(2) k0 k1 by simp
  have b1: "\<forall>th \<in> set ([] @ thumb_list t1). th_ref th < heap_next t1" using assms(3) k0 k1 by simp
  note refs = add_thumbs_refs [OF d1 b1 at]
  have dr: "distinct (map th_ref (ents @ ?dl))" using refs en(1) by (auto simp add: rev_map [symmetric])
  have br: "\<forall>th \<in> set (ents @ ?dl). th_ref th < heap_next ?t'" using refs en(1) l(3) by auto
  have fresh: "\<forall>th' \<in> set ents.
                 (\<exists>th \<in> set (thumb_list t0). th_ref th' = th_ref th \<and> th_imgid th' = th_imgid th)
                 \<or> (heap_next t0 \<le> th_ref th' \<and> th_ref th' \<notin> th_ref ` set (thumb_list t0))"
  proof
    fix th' assume m: "th' \<in> set ents"
    from reconciled_list_refs [OF r m]
    show "(\<exists>th \<in> set (thumb_list t0). th_ref th' = th_ref th \<and> th_imgid th' = th_imgid th)
          \<or> (heap_next t0 \<le> th_ref th' \<and> th_ref th' \<notin> th_ref ` set (thumb_list t0))"
      using k0 assms(3) by fastforce
  qed
  have dd: "distinct (thumb_list t1)" using d1 by (simp add: distinct_map)
  have lo: "?dl = filter (\<lambda>th. \<forall>row \<in> set ?q.
                             find (\<lambda>th. list_compare_by_imgid th (snd row) = 0) (thumb_list t)
                               \<noteq> Some th) (thumb_list t)"
    using add_thumbs_leftover [OF distinct_select_from [OF assms(1)] dd at] k1 by simp
  have sb: "thumbtable_update_scrollbars t = Some ()" using compute_sizes_scrollbars [OF assms(4)] .
  note fu = dt_thumbtable_full_redraw.simps [of n e t0 force]
  have full1: "dt_thumbtable_full_redraw n e t0 force
      = Some (if force then ?t'\<lparr>thumb_list := map (dt_thumbnail_update_selection e) (thumb_list ?t')\<rparr>
              else ?t')"
    if "mode t \<noteq> DT_THUMBTABLE_MODE_FILEMANAGER \<or> selection_first_id e \<le> - 1"
    unfolding fu using that assms(4) sb fr l(2) by auto
  have full2: "dt_thumbtable_full_redraw n e t0 force
                  = Some (if force
                          then (update_selected_infos e ?t')
                                 \<lparr>thumb_list := map (dt_thumbnail_update_selection e)
                                                   (thumb_list (update_selected_infos e ?t'))\<rparr>
                          else update_selected_infos e ?t')"
    if c: "mode t = DT_THUMBTABLE_MODE_FILEMANAGER \<and> - 1 < selection_first_id e
                \<and> (selection_first_id e < 1 \<or> thumb_list ?t' = []
                    \<or> ensure_rowid_step ?t'
                         (if thumb_get_rowid e (selection_first_id e) < 1 then 1
                          else thumb_get_rowid e (selection_first_id e)) = Some Visible)"
  proof -
    have m': "mode ?t' = DT_THUMBTABLE_MODE_FILEMANAGER" using c l(2) by simp
    have "map_option fst (dt_thumbtable_ensure_imgid_visibility n e ?t' (selection_first_id e)) = Some ?t'"
      using ensure_visible_no_move [OF m', of "selection_first_id e" e n] c by blast
    then obtain b where ev: "dt_thumbtable_ensure_imgid_visibility n e ?t' (selection_first_id e) = Some (?t', b)"
      by (cases "dt_thumbtable_ensure_imgid_visibility n e ?t' (selection_first_id e)") auto
    show ?thesis unfolding fu using assms(4) sb fr c m' ev by simp
  qed
  show ?thesis
    apply (rule exI [of _ ?t'], rule exI [of _ ?dl])
    using fr k0(1,2) r l(1) fd lo fresh dr br full1 full2 by simp
qed

theorem full_redraw_reuses_entries_witness:
  "(\<exists>t' dl. full_redraw_reload grid_env_none (grid_table_mid\<lparr>dragging := False\<rparr>) = Some t'
       \<and> reconciled_list grid_env_none grid_table_mid (0, 0)
            (select_from grid_env_none 3 (rows grid_table_mid * thumbs_per_row grid_table_mid - 0))
            (thumb_list t')
       \<and> map th_imgid (thumb_list grid_table_mid) = [11, 12, 13]
       \<and> map th_ref (thumb_list grid_table_mid) = [0, 1, 2]
       \<and> map th_imgid (thumb_list t') = [13, 14, 15]
       \<and> map th_ref (thumb_list t') = [2, 3, 4]
       \<and> full_redraw_destroyed grid_env_none (grid_table_mid\<lparr>dragging := False\<rparr>) = Some dl
       \<and> map th_ref dl = [0, 1]
       \<and> dt_thumbtable_full_redraw 0 grid_env_none grid_table_mid True
            = Some (t'\<lparr>thumb_list := map (dt_thumbnail_update_selection grid_env_none) (thumb_list t')\<rparr>))
   \<and> (\<exists>t' dl. full_redraw_reload grid_env_shown (grid_table\<lparr>dragging := False\<rparr>) = Some t'
       \<and> map th_ref (thumb_list grid_table) = [0, 1, 2]
       \<and> map th_ref (thumb_list t') = [0, 1, 2]
       \<and> full_redraw_destroyed grid_env_shown (grid_table\<lparr>dragging := False\<rparr>) = Some dl
       \<and> dl = []
       \<and> dt_thumbtable_full_redraw 2 grid_env_shown grid_table True
            = Some ((update_selected_infos grid_env_shown t')
                      \<lparr>thumb_list := map (dt_thumbnail_update_selection grid_env_shown)
                                        (thumb_list (update_selected_infos grid_env_shown t'))\<rparr>))"
proof (rule conjI)
  let ?e = grid_env_none
  let ?t = grid_table_mid
  have h: "distinct (collected_images ?e)" "distinct (map th_ref (thumb_list ?t))"
    "\<forall>th \<in> set (thumb_list ?t). th_ref th < heap_next ?t"
    "compute_sizes ?e ?t True = Some (?t, True)"
    "redraw_start (?t\<lparr>dragging := False\<rparr>) = Some (?t\<lparr>dragging := False\<rparr>, 0, 3, 0)"
    by (simp_all add: grid_env_none_def grid_table_mid_def grid_defs compute_sizes_def
        redraw_start_def signed_divide_int_def)
  from full_redraw_reuses_entries [OF h, of 0]
  obtain t' dl where c: "full_redraw_reload ?e (?t\<lparr>dragging := False\<rparr>) = Some t'"
    "reconciled_list ?e ?t (0, 0) (select_from ?e 3 (rows ?t * thumbs_per_row ?t - 0)) (thumb_list t')"
    "full_redraw_destroyed ?e (?t\<lparr>dragging := False\<rparr>) = Some dl"
    "mode ?t \<noteq> DT_THUMBTABLE_MODE_FILEMANAGER \<or> selection_first_id ?e \<le> - 1 \<longrightarrow>
       dt_thumbtable_full_redraw 0 ?e ?t True
         = Some (if True then t'\<lparr>thumb_list := map (dt_thumbnail_update_selection ?e) (thumb_list t')\<rparr>
                 else t')"
    by blast
  have tv: "t' = the (full_redraw_reload ?e (?t\<lparr>dragging := False\<rparr>))" using c(1) by simp
  have dv: "dl = the (full_redraw_destroyed ?e (?t\<lparr>dragging := False\<rparr>))" using c(3) by simp
  have l: "map th_imgid (thumb_list ?t) = [11, 12, 13]" "map th_ref (thumb_list ?t) = [0, 1, 2]"
    "map th_imgid (thumb_list t') = [13, 14, 15]" "map th_ref (thumb_list t') = [2, 3, 4]"
    "map th_ref dl = [0, 1]"
    unfolding tv dv
    by (simp_all add: grid_env_none_def grid_table_mid_def grid_defs redraw_defs move_defs
        full_redraw_destroyed_def signed_divide_int_def)
  have f: "dt_thumbtable_full_redraw 0 ?e ?t True
         = Some (t'\<lparr>thumb_list := map (dt_thumbnail_update_selection ?e) (thumb_list t')\<rparr>)"
    using c(4) by (simp add: grid_env_none_def)
  show "\<exists>t' dl. full_redraw_reload ?e (?t\<lparr>dragging := False\<rparr>) = Some t'
       \<and> reconciled_list ?e ?t (0, 0) (select_from ?e 3 (rows ?t * thumbs_per_row ?t - 0)) (thumb_list t')
       \<and> map th_imgid (thumb_list ?t) = [11, 12, 13]
       \<and> map th_ref (thumb_list ?t) = [0, 1, 2]
       \<and> map th_imgid (thumb_list t') = [13, 14, 15]
       \<and> map th_ref (thumb_list t') = [2, 3, 4]
       \<and> full_redraw_destroyed ?e (?t\<lparr>dragging := False\<rparr>) = Some dl
       \<and> map th_ref dl = [0, 1]
       \<and> dt_thumbtable_full_redraw 0 ?e ?t True
            = Some (t'\<lparr>thumb_list := map (dt_thumbnail_update_selection ?e) (thumb_list t')\<rparr>)"
    by (rule exI [of _ t'], rule exI [of _ dl]) (intro conjI c(1) c(2) l c(3) f)
next
  let ?e = grid_env_shown
  let ?t = grid_table
  have h: "distinct (collected_images ?e)" "distinct (map th_ref (thumb_list ?t))"
    "\<forall>th \<in> set (thumb_list ?t). th_ref th < heap_next ?t"
    "compute_sizes ?e ?t True = Some (?t, True)"
    "redraw_start (?t\<lparr>dragging := False\<rparr>) = Some (?t\<lparr>dragging := False\<rparr>, 0, 4, 0)"
    by (simp_all add: grid_env_shown_def grid_defs compute_sizes_def
        redraw_start_def signed_divide_int_def)
  from full_redraw_reuses_entries [OF h, of 2]
  obtain t' dl where c: "full_redraw_reload ?e (?t\<lparr>dragging := False\<rparr>) = Some t'"
    "full_redraw_destroyed ?e (?t\<lparr>dragging := False\<rparr>) = Some dl"
    "mode ?t = DT_THUMBTABLE_MODE_FILEMANAGER \<and> - 1 < selection_first_id ?e
       \<and> (selection_first_id ?e < 1 \<or> thumb_list t' = []
           \<or> ensure_rowid_step t'
                (if thumb_get_rowid ?e (selection_first_id ?e) < 1 then 1
                 else thumb_get_rowid ?e (selection_first_id ?e)) = Some Visible) \<longrightarrow>
       dt_thumbtable_full_redraw 2 ?e ?t True
         = Some (if True
                 then (update_selected_infos ?e t')
                        \<lparr>thumb_list := map (dt_thumbnail_update_selection ?e)
                                          (thumb_list (update_selected_infos ?e t'))\<rparr>
                 else update_selected_infos ?e t')"
    by blast
  have tv: "t' = the (full_redraw_reload ?e (?t\<lparr>dragging := False\<rparr>))" using c(1) by simp
  have dv: "dl = the (full_redraw_destroyed ?e (?t\<lparr>dragging := False\<rparr>))" using c(2) by simp
  have l: "map th_ref (thumb_list ?t) = [0, 1, 2]" "map th_ref (thumb_list t') = [0, 1, 2]" "dl = []"
    unfolding tv dv
    by (simp_all add: grid_env_shown_def grid_defs redraw_defs move_defs
        full_redraw_destroyed_def signed_divide_int_def)
  have v: "ensure_rowid_step t'
                (if thumb_get_rowid ?e (selection_first_id ?e) < 1 then 1
                 else thumb_get_rowid ?e (selection_first_id ?e)) = Some Visible"
    unfolding tv
    by (simp add: grid_env_shown_def grid_defs redraw_defs move_defs signed_divide_int_def)
  have m: "mode ?t = DT_THUMBTABLE_MODE_FILEMANAGER" "- 1 < selection_first_id ?e"
    by (simp_all add: grid_env_shown_def grid_defs)
  have f: "dt_thumbtable_full_redraw 2 ?e ?t True
            = Some ((update_selected_infos ?e t')
                      \<lparr>thumb_list := map (dt_thumbnail_update_selection ?e)
                                        (thumb_list (update_selected_infos ?e t'))\<rparr>)"
    using c(3) v m by simp
  show "\<exists>t' dl. full_redraw_reload ?e (?t\<lparr>dragging := False\<rparr>) = Some t'
       \<and> map th_ref (thumb_list ?t) = [0, 1, 2]
       \<and> map th_ref (thumb_list t') = [0, 1, 2]
       \<and> full_redraw_destroyed ?e (?t\<lparr>dragging := False\<rparr>) = Some dl
       \<and> dl = []
       \<and> dt_thumbtable_full_redraw 2 ?e ?t True
            = Some ((update_selected_infos ?e t')
                      \<lparr>thumb_list := map (dt_thumbnail_update_selection ?e)
                                        (thumb_list (update_selected_infos ?e t'))\<rparr>)"
    by (rule exI [of _ t'], rule exI [of _ dl]) (intro conjI c(1) l c(2) f)
qed

section \<open>The forward move that a single entry refuses\<close>

text \<open>The rule of lines 509 to 526 of \<^verbatim>\<open>_move\<close> belongs to the file manager: with one
  thumbnail per row and a single entry that shows the last image of the collection, a
  clamped move with a negative vertical delta returns \<^verbatim>\<open>FALSE\<close> and leaves the table as it
  was, with the counter of realignments back to 0. The filmstrip has no such rule; it
  refuses a forward move when the last entry is left of the middle of the viewport (line
  542). The rest of this section shows that a single entry of a filmstrip always is.\<close>

lemma move_single_column_last_image:
  assumes "mode t = DT_THUMBTABLE_MODE_FILEMANAGER" "thumbs_per_row t = 1" "thumb_list t = [th]"
    "dy < 0" "count_collected e \<le> th_rowid th"
  shows "move n e t dx dy True = Some (t\<lparr>realign_top_try := 0\<rparr>, False)"
  using assms by (simp add: move_check_def move.simps [of n e t dx dy True])

subsection \<open>Lists that are laid out\<close>










subsection \<open>Rows of the queries\<close>








subsection \<open>Loading and removing in the filmstrip\<close>








subsection \<open>A clamped move by one thumbnail keeps the layout\<close>





subsection \<open>A full redraw makes the layout\<close>










subsection \<open>The claim\<close>



end
